theory Spec2Isabelle
  imports Main
begin

unbundle bit_operations_syntax

section \<open>Byte streams, generators and errors\<close>

text \<open>
  The encoders of \<^verbatim>\<open>builtin_types.py\<close> are Python generators of integers and the
  decoders pull integers from an iterator. Python integers are unbounded, so a byte is an
  \<^typ>\<open>int\<close>; \<open>AND\<close>, \<open>OR\<close>, \<open>push_bit\<close> and \<open>drop_bit\<close> on \<^typ>\<open>int\<close> are
  Python's \<^verbatim>\<open>&\<close>, \<^verbatim>\<open>|\<close>, \<^verbatim>\<open><<\<close> and \<^verbatim>\<open>>>\<close> (two's complement, arithmetic shift).

  A byte source is the state of one forward iterator: the items it has not handed out yet.
  Every decoder returns the rest of the iterator with its value, so that nested decoders
  read from one cursor. (\<^verbatim>\<open>iter(bytestream)\<close> on an iterator is the iterator itself.)
\<close>

type_synonym byte = int
type_synonym bytestream = "byte list"

datatype error =
    KeyError_no_type_information int
  | KeyError_name string
  | ValueError_unfilled "string set"
  | ValueError
  | TypeError
  | AttributeError
  | RuntimeError
  | UnicodeEncodeError
  | UnicodeDecodeError

text \<open>
  A generator that has run to its end is the list of the items it yielded, in order, and
  the exception that ended it, if one did. The items yielded before a \<^verbatim>\<open>raise\<close> have
  already reached the consumer when the exception arrives.
\<close>

type_synonym gen = "byte list \<times> error option"

definition yield_all :: "byte list \<Rightarrow> gen" where
  "yield_all bs = (bs, None)"

definition raise :: "error \<Rightarrow> gen" where
  "raise e = ([], Some e)"

text \<open>\<^verbatim>\<open>yield from g; rest\<close>: the rest runs only when \<open>g\<close> ends without an exception.\<close>

definition yield_from :: "gen \<Rightarrow> gen \<Rightarrow> gen" where
  "yield_from g rest =
     (case snd g of
        Some e \<Rightarrow> g
      | None \<Rightarrow> (fst g @ fst rest, snd rest))"

section \<open>UnsignedInt\<close>

text \<open>
  \<^verbatim>\<open>UnsignedInt.to_bytes\<close>: the loop body runs once before \<^verbatim>\<open>more_to_come\<close> is tested
  again, so at least one byte is yielded. The continuation bit is set when the shifted
  number is non-zero, the loop goes on when it is positive.
\<close>

function UnsignedInt_to_bytes :: "int \<Rightarrow> byte list" where
  "UnsignedInt_to_bytes n =
     (let next_byte = n AND 127;
          n' = drop_bit 7 n;
          next_byte' = (if n' \<noteq> 0 then next_byte OR 128 else next_byte)
      in next_byte' # (if n' > 0 then UnsignedInt_to_bytes n' else []))"
  by pat_completeness auto
termination
proof (relation "measure nat")
  show "wf (measure nat)" by simp
next
  fix n x xa :: int
  assume "xa = drop_bit 7 n" and "0 < xa"
  then have "0 < n div 128" and "xa = n div 128"
    by (simp_all add: drop_bit_eq_div)
  then have "xa < n" by linarith
  with \<open>0 < xa\<close> show "(xa, n) \<in> measure nat" by simp
qed

text \<open>
  \<^verbatim>\<open>UnsignedInt.read\<close>: \<^verbatim>\<open>for byte in bytestream\<close> ends without an exception when the
  iterator is exhausted, and the function then returns the number it has built.
\<close>

fun UnsignedInt_read_loop :: "int \<Rightarrow> nat \<Rightarrow> bytestream \<Rightarrow> int \<times> bytestream" where
  "UnsignedInt_read_loop number offset [] = (number, [])"
| "UnsignedInt_read_loop number offset (byte # bytestream) =
     (let should_read_more = byte AND 128;
          number' = number OR push_bit offset (byte AND 127);
          offset' = offset + 7
      in if should_read_more = 0 then (number', bytestream)
         else UnsignedInt_read_loop number' offset' bytestream)"

definition UnsignedInt_read :: "bytestream \<Rightarrow> int \<times> bytestream" where
  "UnsignedInt_read bytestream = UnsignedInt_read_loop 0 0 bytestream"

declare UnsignedInt_to_bytes.simps [simp del]

section \<open>Boolean and SignedInt\<close>

text \<open>
  \<^verbatim>\<open>Boolean.to_bytes\<close> sends \<^verbatim>\<open>int(boolean)\<close>, \<^verbatim>\<open>Boolean.read\<close> is \<^verbatim>\<open>bool\<close> of the number
  read: every non-zero number is true.
\<close>

definition Boolean_to_bytes :: "bool \<Rightarrow> byte list" where
  "Boolean_to_bytes boolean = UnsignedInt_to_bytes (if boolean then 1 else 0)"

definition Boolean_read :: "bytestream \<Rightarrow> bool \<times> bytestream" where
  "Boolean_read bytestream =
     (case UnsignedInt_read bytestream of (n, rest) \<Rightarrow> (n \<noteq> 0, rest))"

definition SignedInt_to_bytes :: "int \<Rightarrow> byte list" where
  "SignedInt_to_bytes n = Boolean_to_bytes (n \<ge> 0) @ UnsignedInt_to_bytes \<bar>n\<bar>"

definition SignedInt_read :: "bytestream \<Rightarrow> int \<times> bytestream" where
  "SignedInt_read bytestream =
     (case Boolean_read bytestream of
        (positive, bytestream1) \<Rightarrow>
          (case UnsignedInt_read bytestream1 of
             (val, bytestream2) \<Rightarrow> (if \<not> positive then val * (- 1) else val, bytestream2)))"

section \<open>String\<close>

text \<open>
  A Python \<^verbatim>\<open>str\<close> is a sequence of code points, each below \<open>0x110000\<close>; the surrogates
  \<open>0xD800\<close> to \<open>0xDFFF\<close> are code points a \<^verbatim>\<open>str\<close> may hold. \<^verbatim>\<open>len\<close> of the encoded text
  counts bytes.

  \<^verbatim>\<open>text.encode("utf-8")\<close> and \<^verbatim>\<open>bytes.decode("utf-8")\<close> are the interpreter's strict UTF-8
  codec, which the repository calls and does not define. It is written out here after the
  table of well-formed UTF-8 byte sequences of the Unicode Standard: the encoder raises
  \<^verbatim>\<open>UnicodeEncodeError\<close> on a surrogate, the decoder raises \<^verbatim>\<open>UnicodeDecodeError\<close> on a
  byte sequence outside the table (overlong forms, encoded surrogates, values from
  \<open>0x110000\<close>, a missing or wrong continuation byte). A number from \<open>0x110000\<close> is no
  code point and no \<^verbatim>\<open>str\<close> holds one; the last case of the encoder is never met by a
  Python string.
\<close>

type_synonym pystr = "nat list"

definition is_code_point :: "nat \<Rightarrow> bool" where
  "is_code_point c = (c < 0x110000)"

definition is_surrogate :: "nat \<Rightarrow> bool" where
  "is_surrogate c = (0xD800 \<le> c \<and> c \<le> 0xDFFF)"

definition encode_code_point :: "nat \<Rightarrow> error + byte list" where
  "encode_code_point c =
     (if c < 0x80 then Inr [int c]
      else if c < 0x800 then Inr [int (0xC0 + c div 64), int (0x80 + c mod 64)]
      else if is_surrogate c then Inl UnicodeEncodeError
      else if c < 0x10000 then
        Inr [int (0xE0 + c div 4096), int (0x80 + c div 64 mod 64), int (0x80 + c mod 64)]
      else if c < 0x110000 then
        Inr [int (0xF0 + c div 262144), int (0x80 + c div 4096 mod 64),
             int (0x80 + c div 64 mod 64), int (0x80 + c mod 64)]
      else Inl UnicodeEncodeError)"

fun encode_utf8 :: "pystr \<Rightarrow> error + byte list" where
  "encode_utf8 [] = Inr []"
| "encode_utf8 (c # text) =
     (case encode_code_point c of
        Inl e \<Rightarrow> Inl e
      | Inr bs \<Rightarrow> (case encode_utf8 text of Inl e \<Rightarrow> Inl e | Inr rest \<Rightarrow> Inr (bs @ rest)))"

definition continuation :: "byte \<Rightarrow> bool" where
  "continuation b = (0x80 \<le> b \<and> b \<le> 0xBF)"

text \<open>One code point from the head of the bytes, with the bytes after it.\<close>

fun decode_code_point :: "byte list \<Rightarrow> (nat \<times> byte list) option" where
  "decode_code_point [] = None"
| "decode_code_point (b0 # bs) =
     (if 0 \<le> b0 \<and> b0 < 0x80 then Some (nat b0, bs)
      else if 0xC2 \<le> b0 \<and> b0 \<le> 0xDF then
        (case bs of
           b1 # rest \<Rightarrow>
             if continuation b1 then Some (nat ((b0 - 0xC0) * 64 + (b1 - 0x80)), rest) else None
         | _ \<Rightarrow> None)
      else if 0xE0 \<le> b0 \<and> b0 \<le> 0xEF then
        (case bs of
           b1 # b2 # rest \<Rightarrow>
             if (if b0 = 0xE0 then 0xA0 else 0x80) \<le> b1
                \<and> b1 \<le> (if b0 = 0xED then 0x9F else 0xBF) \<and> continuation b2
             then Some (nat ((b0 - 0xE0) * 4096 + (b1 - 0x80) * 64 + (b2 - 0x80)), rest)
             else None
         | _ \<Rightarrow> None)
      else if 0xF0 \<le> b0 \<and> b0 \<le> 0xF4 then
        (case bs of
           b1 # b2 # b3 # rest \<Rightarrow>
             if (if b0 = 0xF0 then 0x90 else 0x80) \<le> b1
                \<and> b1 \<le> (if b0 = 0xF4 then 0x8F else 0xBF)
                \<and> continuation b2 \<and> continuation b3
             then Some (nat ((b0 - 0xF0) * 262144 + (b1 - 0x80) * 4096
                             + (b2 - 0x80) * 64 + (b3 - 0x80)), rest)
             else None
         | _ \<Rightarrow> None)
      else None)"

lemma decode_code_point_shorter:
  "decode_code_point bs = Some (c, rest) \<Longrightarrow> length rest < length bs"
  by (cases bs) (auto split: if_splits list.splits)

function decode_utf8 :: "byte list \<Rightarrow> error + pystr" where
  "decode_utf8 bs =
     (if bs = [] then Inr []
      else (case decode_code_point bs of
              None \<Rightarrow> Inl UnicodeDecodeError
            | Some (c, rest) \<Rightarrow>
                (case decode_utf8 rest of Inl e \<Rightarrow> Inl e | Inr text \<Rightarrow> Inr (c # text))))"
  by pat_completeness auto
termination
  by (relation "measure length") (auto dest: decode_code_point_shorter)

declare decode_utf8.simps [simp del]

text \<open>
  \<^verbatim>\<open>String.to_bytes\<close> encodes the whole text before its first \<^verbatim>\<open>yield\<close>.
\<close>

definition String_to_bytes :: "pystr \<Rightarrow> gen" where
  "String_to_bytes text =
     (case encode_utf8 text of
        Inl e \<Rightarrow> raise e
      | Inr encoded \<Rightarrow> yield_all (UnsignedInt_to_bytes (int (length encoded)) @ encoded))"

text \<open>
  \<^verbatim>\<open>bytes(cls.read_n_bytes(length, bytestream))\<close>: \<^verbatim>\<open>bytes\<close> pulls the generator item by
  item. \<^verbatim>\<open>next(bytestream)\<close> on the exhausted iterator raises \<^verbatim>\<open>StopIteration\<close> inside the
  generator, which Python (3.7 and later) turns into \<^verbatim>\<open>RuntimeError\<close>; \<^verbatim>\<open>bytes\<close> raises
  \<^verbatim>\<open>ValueError\<close> on an item outside \<^verbatim>\<open>range(256)\<close> as soon as it is pulled.
  \<^verbatim>\<open>while n\<close> stops at zero only.
\<close>

fun read_n_bytes :: "int \<Rightarrow> bytestream \<Rightarrow> error + (byte list \<times> bytestream)" where
  "read_n_bytes n [] = (if n = 0 then Inr ([], []) else Inl RuntimeError)"
| "read_n_bytes n (b # bytestream) =
     (if n = 0 then Inr ([], b # bytestream)
      else if 0 \<le> b \<and> b < 256 then
        (case read_n_bytes (n - 1) bytestream of
           Inl e \<Rightarrow> Inl e
         | Inr (bs, rest) \<Rightarrow> Inr (b # bs, rest))
      else Inl ValueError)"

definition String_read :: "bytestream \<Rightarrow> error + (pystr \<times> bytestream)" where
  "String_read bytestream =
     (case UnsignedInt_read bytestream of
        (len, bytestream1) \<Rightarrow>
          (case read_n_bytes len bytestream1 of
             Inl e \<Rightarrow> Inl e
           | Inr (raw, bytestream2) \<Rightarrow>
               (case decode_utf8 raw of
                  Inl e \<Rightarrow> Inl e
                | Inr text \<Rightarrow> Inr (text, bytestream2))))"

section \<open>Text as a number\<close>

text \<open>
  \<^verbatim>\<open>Boolean.to_bytes\<close> applies \<^verbatim>\<open>int\<close> to the value it is given, and \<^verbatim>\<open>int\<close> of text is the
  interpreter's. It takes an optional sign and decimal digits, with single underscores
  between digits and white space around the whole; anything else raises \<^verbatim>\<open>ValueError\<close>.
  White space is that of \<^verbatim>\<open>str.isspace\<close> without the separators \<open>0x1C\<close> to \<open>0x1F\<close>. A
  decimal digit is a code point with a decimal value in the Unicode character database
  (Unicode 14.0: 66 runs of ten code points, the digits 0 to 9 in order; the list holds
  the zero of each run). The limit on the number of digits that the interpreter can be
  set to enforce is taken as off: the tests of the repository convert longer numbers.
\<close>

definition int_isspace :: "nat \<Rightarrow> bool" where
  "int_isspace c =
     (c \<in> {0x9, 0xA, 0xB, 0xC, 0xD, 0x20, 0x85, 0xA0, 0x1680, 0x2028, 0x2029, 0x202F,
            0x205F, 0x3000}
      \<or> (0x2000 \<le> c \<and> c \<le> 0x200A))"

definition digit_zeros :: "nat list" where
  "digit_zeros =
    [0x30, 0x660, 0x6F0, 0x7C0, 0x966, 0x9E6, 0xA66, 0xAE6, 0xB66, 0xBE6, 0xC66, 0xCE6,
     0xD66, 0xDE6, 0xE50, 0xED0, 0xF20, 0x1040, 0x1090, 0x17E0, 0x1810, 0x1946, 0x19D0,
     0x1A80, 0x1A90, 0x1B50, 0x1BB0, 0x1C40, 0x1C50, 0xA620, 0xA8D0, 0xA900, 0xA9D0,
     0xA9F0, 0xAA50, 0xABF0, 0xFF10, 0x104A0, 0x10D30, 0x11066, 0x110F0, 0x11136, 0x111D0,
     0x112F0, 0x11450, 0x114D0, 0x11650, 0x116C0, 0x11730, 0x118E0, 0x11950, 0x11C50,
     0x11D50, 0x11DA0, 0x16A60, 0x16AC0, 0x16B50, 0x1D7CE, 0x1D7D8, 0x1D7E2, 0x1D7EC,
     0x1D7F6, 0x1E140, 0x1E2F0, 0x1E950, 0x1FBF0]"

definition decimal_digit :: "nat \<Rightarrow> nat option" where
  "decimal_digit c =
     (case find (\<lambda>zero. zero \<le> c \<and> c < zero + 10) digit_zeros of
        None \<Rightarrow> None
      | Some zero \<Rightarrow> Some (c - zero))"

fun int_digits_ok :: "pystr \<Rightarrow> bool" where
  "int_digits_ok [] = False"
| "int_digits_ok [c] = (decimal_digit c \<noteq> None)"
| "int_digits_ok (c # d # s) =
     (decimal_digit c \<noteq> None \<and> (if d = 0x5F then int_digits_ok s else int_digits_ok (d # s)))"

definition int_digits_value :: "pystr \<Rightarrow> int" where
  "int_digits_value s =
     foldl (\<lambda>n c. case decimal_digit c of None \<Rightarrow> n | Some d \<Rightarrow> 10 * n + int d) 0 s"

definition int_of_text :: "pystr \<Rightarrow> error + int" where
  "int_of_text text =
     (let s = dropWhile int_isspace (rev (dropWhile int_isspace (rev text)));
          sign = (if take 1 s = [0x2D] then - 1 else 1);
          body = (if take 1 s = [0x2D] \<or> take 1 s = [0x2B] then drop 1 s else s)
      in if int_digits_ok body then Inr (sign * int_digits_value body) else Inl ValueError)"

section \<open>Values and type descriptors\<close>

text \<open>
  The values the codecs handle: integers, booleans, text, \<^verbatim>\<open>None\<close>, lists, dictionaries
  and the instances of the classes that \<^verbatim>\<open>make_user_type\<close> creates. A \<^verbatim>\<open>dict\<close> keeps its
  keys in insertion order and holds no key twice: it is an association list, in iteration
  order. An instance is its attributes: \<^verbatim>\<open>_name\<close>, \<^verbatim>\<open>_records\<close> and those that \<^verbatim>\<open>setattr\<close>
  adds.
\<close>

datatype pyval =
    VInt int
  | VBool bool
  | VStr pystr
  | VNone
  | VList "pyval list"
  | VDict "(string \<times> pyval) list"
  | UserType pyval pyval "(string \<times> pyval) list"

type_synonym pydict = "(string \<times> pyval) list"

text \<open>\<^verbatim>\<open>d[k] = v\<close>: a key the dictionary holds keeps its place, a new key goes last.\<close>

fun dict_set :: "pydict \<Rightarrow> string \<Rightarrow> pyval \<Rightarrow> pydict" where
  "dict_set [] k v = [(k, v)]"
| "dict_set ((k', v') # d) k v = (if k' = k then (k, v) # d else (k', v') # dict_set d k v)"

text \<open>
  The type objects. \<^verbatim>\<open>MapEntrySpec\<close> is the named tuple \<open>(key, name, value_type)\<close>; a
  \<^verbatim>\<open>Map\<close> holds its entry specifications and its name (\<^verbatim>\<open>None\<close> when \<^verbatim>\<open>from_lines\<close> is given
  none).
\<close>

datatype ty =
    UnsignedInt
  | SignedInt
  | Boolean
  | String
  | List ty
  | Optional ty
  | Map "(int \<times> string \<times> ty) list" "string option"

type_synonym MapEntrySpec = "int \<times> string \<times> ty"

definition key :: "MapEntrySpec \<Rightarrow> int" where
  "key spec = fst spec"

definition name :: "MapEntrySpec \<Rightarrow> string" where
  "name spec = fst (snd spec)"

definition value_type :: "MapEntrySpec \<Rightarrow> ty" where
  "value_type spec = snd (snd spec)"

text \<open>
  \<^verbatim>\<open>specs_by_name = {spec.name: spec for spec in self.entry_specs}\<close>: of two specifications
  with one name the later one stays.
\<close>

definition specs_by_name :: "MapEntrySpec list \<Rightarrow> string \<rightharpoonup> MapEntrySpec" where
  "specs_by_name entry_specs = foldl (\<lambda>m spec. m(name spec \<mapsto> spec)) Map.empty entry_specs"

text \<open>
  The \<^verbatim>\<open>for\<close> \<open>\<dots>\<close> \<^verbatim>\<open>else\<close> of \<^verbatim>\<open>Map.read_key\<close>: the first specification with the key.
\<close>

definition spec_by_key :: "MapEntrySpec list \<Rightarrow> int \<Rightarrow> MapEntrySpec option" where
  "spec_by_key entry_specs k = find (\<lambda>entry_spec. key entry_spec = k) entry_specs"

lemma specs_by_name_in_set:
  "specs_by_name entry_specs n = Some spec \<Longrightarrow> spec \<in> set entry_specs"
proof -
  have "foldl (\<lambda>m spec. m(name spec \<mapsto> spec)) m0 entry_specs n = Some spec
        \<Longrightarrow> spec \<in> set entry_specs \<or> m0 n = Some spec" for m0
  proof (induction entry_specs arbitrary: m0)
    case Nil
    then show ?case by simp
  next
    case (Cons a entry_specs)
    from Cons.IH [of "m0(name a \<mapsto> a)"] Cons.prems
    show ?case by (auto split: if_splits)
  qed
  from this [of Map.empty] show "specs_by_name entry_specs n = Some spec \<Longrightarrow> spec \<in> set entry_specs"
    by (simp add: specs_by_name_def)
qed

lemma spec_by_key_in_set:
  "spec_by_key entry_specs k = Some spec \<Longrightarrow> spec \<in> set entry_specs"
  by (auto simp: spec_by_key_def find_Some_iff)

lemma value_type_smaller:
  "spec \<in> set entry_specs \<Longrightarrow> size (value_type spec) < size (Map entry_specs nm)"
proof (induction entry_specs)
  case Nil
  then show ?case by simp
next
  case (Cons a entry_specs)
  then show ?case by (cases a) (auto simp: value_type_def)
qed

section \<open>Encoding\<close>

text \<open>
  \<^verbatim>\<open>to_bytes\<close> of each type object. The source is dynamically typed, and an equation
  follows it on every value: a \<^verbatim>\<open>bool\<close> is an \<^verbatim>\<open>int\<close> (\<^verbatim>\<open>True & 127\<close> is 1, \<^verbatim>\<open>int(5)\<close> is 5);
  \<^verbatim>\<open>&\<close>, \<^verbatim>\<open>>=\<close>, \<^verbatim>\<open>int\<close> and \<^verbatim>\<open>len\<close> raise \<^verbatim>\<open>TypeError\<close> on an operand they do not take; a
  missing attribute (\<^verbatim>\<open>encode\<close>, \<^verbatim>\<open>_records\<close>, \<^verbatim>\<open>items\<close>) is an \<^verbatim>\<open>AttributeError\<close>, and an
  attribute of an instance that holds a decoded value cannot be called (\<^verbatim>\<open>TypeError\<close>);
  \<^verbatim>\<open>List.to_bytes\<close> iterates over a string by characters and over a dictionary by keys.
  Each of these exceptions arises before the first \<^verbatim>\<open>yield\<close>. \<^verbatim>\<open>Boolean.to_bytes\<close> of
  text sends \<^verbatim>\<open>int(text)\<close> as \<^verbatim>\<open>UnsignedInt.to_bytes\<close> does, or raises the \<^verbatim>\<open>ValueError\<close> of
  \<^verbatim>\<open>int\<close>.

  \<^verbatim>\<open>Map.to_bytes\<close> takes a dictionary, or the \<^verbatim>\<open>_records\<close> of an instance. It sends the
  number of items, then key and value of each item in the dictionary's iteration order;
  \<^verbatim>\<open>specs_by_name[name]\<close> raises \<^verbatim>\<open>KeyError\<close> on a name that has no specification. The
  comparison of the names seen with the names specified comes after the loop, when the
  bytes of the items have been yielded.
\<close>

function (sequential) to_bytes :: "ty \<Rightarrow> pyval \<Rightarrow> gen"
  and List_to_bytes_loop :: "ty \<Rightarrow> pyval list \<Rightarrow> gen"
  and Map_to_bytes_loop :: "MapEntrySpec list \<Rightarrow> pydict \<Rightarrow> gen"
where
  "to_bytes UnsignedInt (VInt n) = yield_all (UnsignedInt_to_bytes n)"
| "to_bytes UnsignedInt (VBool b) = yield_all (UnsignedInt_to_bytes (if b then 1 else 0))"
| "to_bytes UnsignedInt v = raise TypeError"
| "to_bytes SignedInt (VInt n) = yield_all (SignedInt_to_bytes n)"
| "to_bytes SignedInt (VBool b) = yield_all (SignedInt_to_bytes (if b then 1 else 0))"
| "to_bytes SignedInt v = raise TypeError"
| "to_bytes Boolean (VBool boolean) = yield_all (Boolean_to_bytes boolean)"
| "to_bytes Boolean (VInt n) = yield_all (UnsignedInt_to_bytes n)"
| "to_bytes Boolean (VStr s) =
     (case int_of_text s of
        Inl e \<Rightarrow> raise e
      | Inr n \<Rightarrow> yield_all (UnsignedInt_to_bytes n))"
| "to_bytes Boolean v = raise TypeError"
| "to_bytes String (VStr s) = String_to_bytes s"
| "to_bytes String (UserType n r attrs) =
     (if ''encode'' \<in> set (map fst attrs) then raise TypeError else raise AttributeError)"
| "to_bytes String v = raise AttributeError"
| "to_bytes (List inner_type) (VList vals) =
     yield_from (yield_all (UnsignedInt_to_bytes (int (length vals))))
       (List_to_bytes_loop inner_type vals)"
| "to_bytes (List inner_type) (VStr s) =
     yield_from (yield_all (UnsignedInt_to_bytes (int (length s))))
       (List_to_bytes_loop inner_type (map (\<lambda>c. VStr [c]) s))"
| "to_bytes (List inner_type) (VDict d) =
     yield_from (yield_all (UnsignedInt_to_bytes (int (length d))))
       (List_to_bytes_loop inner_type (map (\<lambda>item. VStr (map of_char (fst item))) d))"
| "to_bytes (List inner_type) v = raise TypeError"
| "to_bytes (Optional inner_type) v =
     (if v = VNone then yield_all (Boolean_to_bytes False)
      else yield_from (yield_all (Boolean_to_bytes True)) (to_bytes inner_type v))"
| "to_bytes (Map entry_specs nm) (VDict d) =
     yield_from (yield_all (UnsignedInt_to_bytes (int (length d))))
       (yield_from (Map_to_bytes_loop entry_specs d)
          (let seen_keys = set (map fst d);
               names = set (map name entry_specs);
               unfilled = (seen_keys - names) \<union> (names - seen_keys)
           in if unfilled \<noteq> {} then raise (ValueError_unfilled unfilled) else yield_all []))"
| "to_bytes (Map entry_specs nm) (UserType n (VDict d) attrs) =
     to_bytes (Map entry_specs nm) (VDict d)"
| "to_bytes (Map entry_specs nm) (UserType n (UserType n' r' attrs') attrs) =
     (if ''items'' \<in> set (map fst attrs') then raise TypeError else raise AttributeError)"
| "to_bytes (Map entry_specs nm) v = raise AttributeError"
| "List_to_bytes_loop inner_type [] = yield_all []"
| "List_to_bytes_loop inner_type (v # vals) =
     yield_from (to_bytes inner_type v) (List_to_bytes_loop inner_type vals)"
| "Map_to_bytes_loop entry_specs [] = yield_all []"
| "Map_to_bytes_loop entry_specs ((field, inner_value) # items) =
     (case specs_by_name entry_specs field of
        None \<Rightarrow> raise (KeyError_name field)
      | Some spec \<Rightarrow>
          yield_from (yield_all (UnsignedInt_to_bytes (key spec)))
            (yield_from (to_bytes (value_type spec) inner_value)
               (Map_to_bytes_loop entry_specs items)))"
  by pat_completeness auto
termination
  apply (relation "measures
    [\<lambda>x. case x of Inl (T, v) \<Rightarrow> size T
              | Inr (Inl (T, vs)) \<Rightarrow> size T
              | Inr (Inr (specs, d)) \<Rightarrow> size (Map specs None),
     \<lambda>x. case x of Inl (T, v) \<Rightarrow> size v
              | Inr (Inl (T, vs)) \<Rightarrow> Suc (size_list size vs)
              | Inr (Inr (specs, d)) \<Rightarrow> size_list (size_prod (\<lambda>x. 0) size) d]")
  apply (auto dest!: specs_by_name_in_set value_type_smaller [where nm = None])
  done

section \<open>Decoding\<close>

text \<open>
  \<^verbatim>\<open>Map.__call__\<close> passes the dictionary as keyword arguments: a key \<^verbatim>\<open>self\<close> collides with
  the parameter of that name, and the call raises \<^verbatim>\<open>TypeError\<close>. \<^verbatim>\<open>UserType.__init__\<close> sets
  \<^verbatim>\<open>_name\<close> and \<^verbatim>\<open>_records\<close> and then one attribute for every item, in the order of the
  dictionary, so an item named \<^verbatim>\<open>_name\<close> or \<^verbatim>\<open>_records\<close> replaces that attribute. Python's
  \<^verbatim>\<open>setattr\<close> on an instance refuses three names: \<^verbatim>\<open>__class__\<close> takes a class and
  \<^verbatim>\<open>__dict__\<close> a dictionary only (\<^verbatim>\<open>TypeError\<close>; a decoded value is neither), and
  \<^verbatim>\<open>__weakref__\<close> is not writable (\<^verbatim>\<open>AttributeError\<close>); an object that is no instance
  has no attributes to set (\<^verbatim>\<open>AttributeError\<close>).
\<close>

fun setattr :: "pyval \<Rightarrow> string \<times> pyval \<Rightarrow> error + pyval" where
  "setattr (UserType n r attrs) (k, v) =
     (if k = ''__class__'' \<or> k = ''__dict__'' then Inl TypeError
      else if k = ''__weakref__'' then Inl AttributeError
      else if k = ''_name'' then Inr (UserType v r attrs)
      else if k = ''_records'' then Inr (UserType n v attrs)
      else Inr (UserType n r (dict_set attrs k v)))"
| "setattr obj (k, v) = Inl AttributeError"

fun setattr_loop :: "pyval \<Rightarrow> pydict \<Rightarrow> error + pyval" where
  "setattr_loop obj [] = Inr obj"
| "setattr_loop obj (item # records) =
     (case setattr obj item of
        Inl e \<Rightarrow> Inl e
      | Inr obj' \<Rightarrow> setattr_loop obj' records)"

definition name_value :: "string option \<Rightarrow> pyval" where
  "name_value nm = (case nm of None \<Rightarrow> VNone | Some s \<Rightarrow> VStr (map of_char s))"

definition Map_call :: "string option \<Rightarrow> pydict \<Rightarrow> error + pyval" where
  "Map_call nm kwargs =
     (if ''self'' \<in> set (map fst kwargs) then Inl TypeError
      else setattr_loop (UserType (name_value nm) (VDict kwargs) []) kwargs)"

text \<open>
  \<^verbatim>\<open>read\<close> of each type object. \<^verbatim>\<open>range(length)\<close> runs \<open>length\<close> times (no time when
  \<open>length\<close> is not positive). \<^verbatim>\<open>Map.read\<close> wraps the dictionary of \<^verbatim>\<open>Map.read_as_dict\<close> in an
  instance; the value of a field whose type is a \<^verbatim>\<open>Map\<close> is read by \<^verbatim>\<open>Map.read\<close>.
\<close>

function read :: "ty \<Rightarrow> bytestream \<Rightarrow> error + (pyval \<times> bytestream)"
  and List_read_loop ::
    "ty \<Rightarrow> nat \<Rightarrow> pyval list \<Rightarrow> bytestream \<Rightarrow> error + (pyval list \<times> bytestream)"
  and Map_read_key ::
    "MapEntrySpec list \<Rightarrow> int \<Rightarrow> bytestream \<Rightarrow> error + ((string \<times> pyval) \<times> bytestream)"
  and Map_read_loop ::
    "MapEntrySpec list \<Rightarrow> nat \<Rightarrow> pydict \<Rightarrow> bytestream \<Rightarrow> error + (pydict \<times> bytestream)"
  and Map_read_as_dict ::
    "MapEntrySpec list \<Rightarrow> bytestream \<Rightarrow> error + (pydict \<times> bytestream)"
where
  "read UnsignedInt bytestream =
     (case UnsignedInt_read bytestream of (n, rest) \<Rightarrow> Inr (VInt n, rest))"
| "read SignedInt bytestream =
     (case SignedInt_read bytestream of (n, rest) \<Rightarrow> Inr (VInt n, rest))"
| "read Boolean bytestream =
     (case Boolean_read bytestream of (b, rest) \<Rightarrow> Inr (VBool b, rest))"
| "read String bytestream =
     (case String_read bytestream of
        Inl e \<Rightarrow> Inl e
      | Inr (text, rest) \<Rightarrow> Inr (VStr text, rest))"
| "read (List inner_type) bytestream =
     (case UnsignedInt_read bytestream of
        (len, bytestream1) \<Rightarrow>
          (case List_read_loop inner_type (nat len) [] bytestream1 of
             Inl e \<Rightarrow> Inl e
           | Inr (vals, rest) \<Rightarrow> Inr (VList vals, rest)))"
| "read (Optional inner_type) bytestream =
     (case Boolean_read bytestream of
        (has_value, bytestream1) \<Rightarrow>
          if has_value then read inner_type bytestream1 else Inr (VNone, bytestream1))"
| "read (Map entry_specs nm) bytestream =
     (case Map_read_as_dict entry_specs bytestream of
        Inl e \<Rightarrow> Inl e
      | Inr (map_data, rest) \<Rightarrow>
          (case Map_call nm map_data of
             Inl e \<Rightarrow> Inl e
           | Inr obj \<Rightarrow> Inr (obj, rest)))"
| "List_read_loop inner_type 0 vals bytestream = Inr (vals, bytestream)"
| "List_read_loop inner_type (Suc n) vals bytestream =
     (case read inner_type bytestream of
        Inl e \<Rightarrow> Inl e
      | Inr (v, bytestream1) \<Rightarrow> List_read_loop inner_type n (vals @ [v]) bytestream1)"
| "Map_read_key entry_specs k bytestream =
     (case spec_by_key entry_specs k of
        None \<Rightarrow> Inl (KeyError_no_type_information k)
      | Some entry_spec \<Rightarrow>
          (case read (value_type entry_spec) bytestream of
             Inl e \<Rightarrow> Inl e
           | Inr (v, rest) \<Rightarrow> Inr ((name entry_spec, v), rest)))"
| "Map_read_loop entry_specs 0 map_data bytestream = Inr (map_data, bytestream)"
| "Map_read_loop entry_specs (Suc n) map_data bytestream =
     (case UnsignedInt_read bytestream of
        (k, bytestream1) \<Rightarrow>
          (case Map_read_key entry_specs k bytestream1 of
             Inl e \<Rightarrow> Inl e
           | Inr ((field, v), bytestream2) \<Rightarrow>
               Map_read_loop entry_specs n (dict_set map_data field v) bytestream2))"
| "Map_read_as_dict entry_specs bytestream =
     (case UnsignedInt_read bytestream of
        (number_entries, bytestream1) \<Rightarrow>
          Map_read_loop entry_specs (nat number_entries) [] bytestream1)"
  by pat_completeness auto
termination
  apply (relation "measures
    [\<lambda>x. case x of
            Inl (Inl (T, bs)) \<Rightarrow> size T
          | Inl (Inr (T, n, vs, bs)) \<Rightarrow> size T
          | Inr (Inl (specs, k, bs)) \<Rightarrow> size (Map specs None)
          | Inr (Inr (Inl (specs, n, d, bs))) \<Rightarrow> size (Map specs None)
          | Inr (Inr (Inr (specs, bs))) \<Rightarrow> size (Map specs None),
     \<lambda>x. case x of
            Inl (Inl (T, bs)) \<Rightarrow> 4
          | Inl (Inr (T, n, vs, bs)) \<Rightarrow> 5
          | Inr (Inl (specs, k, bs)) \<Rightarrow> 0
          | Inr (Inr (Inl (specs, n, d, bs))) \<Rightarrow> 1
          | Inr (Inr (Inr (specs, bs))) \<Rightarrow> 2,
     \<lambda>x. case x of
            Inl (Inl (T, bs)) \<Rightarrow> 0
          | Inl (Inr (T, n, vs, bs)) \<Rightarrow> n
          | Inr (Inl (specs, k, bs)) \<Rightarrow> 0
          | Inr (Inr (Inl (specs, n, d, bs))) \<Rightarrow> n
          | Inr (Inr (Inr (specs, bs))) \<Rightarrow> 0]")
  apply (auto dest!: spec_by_key_in_set value_type_smaller [where nm = None])
  done

section \<open>Schema resolution\<close>

text \<open>
  The schema text is Python \<^verbatim>\<open>str\<close>; it is modelled on strings of code points below 256
  (a \<^typ>\<open>char\<close> is one such code point), which is where field names live as well.
  \<^verbatim>\<open>str.strip\<close>, \<^verbatim>\<open>str.split\<close> without argument, \<^verbatim>\<open>str.lower\<close>, \<^verbatim>\<open>str.replace\<close>,
  \<^verbatim>\<open>os.path.join\<close> and \<^verbatim>\<open>int\<close> of a string are the interpreter's; they are written out on
  these strings: the white space below 256, the letters below 256 that have a lower
  case, decimal digits with an optional sign and single underscores between digits.
\<close>

definition isspace :: "char \<Rightarrow> bool" where
  "isspace c = (of_char c \<in> {9, 10, 11, 12, 13, 28, 29, 30, 31, 32, 133, 160 :: nat})"

definition strip :: "string \<Rightarrow> string" where
  "strip s = dropWhile isspace (rev (dropWhile isspace (rev s)))"

fun split_loop :: "string \<Rightarrow> string \<Rightarrow> string list" where
  "split_loop word [] = (if word = [] then [] else [word])"
| "split_loop word (c # s) =
     (if isspace c then (if word = [] then split_loop [] s else word # split_loop [] s)
      else split_loop (word @ [c]) s)"

definition split :: "string \<Rightarrow> string list" where
  "split s = split_loop [] s"

definition lower_char :: "char \<Rightarrow> char" where
  "lower_char c =
     (let n = (of_char c :: nat)
      in if (65 \<le> n \<and> n \<le> 90) \<or> (192 \<le> n \<and> n \<le> 222 \<and> n \<noteq> 215)
         then char_of (n + 32) else c)"

definition lower :: "string \<Rightarrow> string" where
  "lower s = map lower_char s"

definition replace_char :: "string \<Rightarrow> char \<Rightarrow> string" where
  "replace_char line char = map (\<lambda>c. if c = char then CHR '' '' else c) line"

text \<open>\<^verbatim>\<open>name.replace(".buf", "")\<close>: every occurrence, from the left, without a second pass.\<close>

function remove_buf :: "string \<Rightarrow> string" where
  "remove_buf s =
     (if s = [] then []
      else if take 4 s = ''.buf'' then remove_buf (drop 4 s)
      else hd s # remove_buf (tl s))"
  by pat_completeness auto
termination
  by (relation "measure length") auto

declare remove_buf.simps [simp del]

text \<open>\<^verbatim>\<open>filename.split("/")[-1]\<close> and \<^verbatim>\<open>os.path.join(directory, filename)\<close> (POSIX).\<close>

definition last_component :: "string \<Rightarrow> string" where
  "last_component filename = rev (takeWhile (\<lambda>c. c \<noteq> CHR ''/'') (rev filename))"

definition path_join :: "string \<Rightarrow> string \<Rightarrow> string" where
  "path_join directory filename =
     (if take 1 filename = ''/'' then filename
      else if directory = [] \<or> last directory = CHR ''/'' then directory @ filename
      else directory @ ''/'' @ filename)"

definition is_digit :: "char \<Rightarrow> bool" where
  "is_digit c = (48 \<le> (of_char c :: nat) \<and> (of_char c :: nat) \<le> 57)"

fun digits_ok :: "string \<Rightarrow> bool" where
  "digits_ok [] = False"
| "digits_ok [c] = is_digit c"
| "digits_ok (c # d # s) =
     (is_digit c \<and> (if d = CHR ''_'' then digits_ok s else digits_ok (d # s)))"

definition digits_value :: "string \<Rightarrow> int" where
  "digits_value s = foldl (\<lambda>n c. 10 * n + (int (of_char c) - 48)) 0 (filter is_digit s)"

definition py_int :: "string \<Rightarrow> error + int" where
  "py_int s =
     (let sign = (if take 1 s = ''-'' then - 1 else 1);
          body = (if take 1 s = ''-'' \<or> take 1 s = ''+'' then drop 1 s else s)
      in if digits_ok body then Inr (sign * digits_value body) else Inl ValueError)"

text \<open>
  \<^verbatim>\<open>map_info_from_lines\<close>: the loop over the lines, with the dictionary of required types
  and the list of entries it has built so far. Unpacking \<^verbatim>\<open>line.split()\<close> into too few or
  too many names raises \<^verbatim>\<open>ValueError\<close>.
\<close>

definition IGNORED_CHARACTERS :: string where
  "IGNORED_CHARACTERS = ''():.-/''"

type_synonym entry = "int \<times> string \<times> string list"

fun map_info_loop ::
  "string list \<Rightarrow> string \<Rightarrow> (string \<rightharpoonup> string) \<Rightarrow> entry list
   \<Rightarrow> error + ((string \<rightharpoonup> string) \<times> entry list)" where
  "map_info_loop [] directory user_types entries = Inr (user_types, entries)"
| "map_info_loop (line0 # lines) directory user_types entries =
     (let line = strip line0
      in if line = [] then map_info_loop lines directory user_types entries
         else if take 7 line = ''require'' then
           (case split line of
              [u, filename] \<Rightarrow>
                map_info_loop lines directory
                  (user_types(lower (remove_buf (last_component filename))
                     \<mapsto> path_join directory filename))
                  entries
            | _ \<Rightarrow> Inl ValueError)
         else
           (case split (foldl replace_char line IGNORED_CHARACTERS) of
              k # field # description \<Rightarrow>
                (case py_int k of
                   Inl e \<Rightarrow> Inl e
                 | Inr n \<Rightarrow>
                     map_info_loop lines directory user_types
                       (entries @ [(n, field, map lower description)]))
            | _ \<Rightarrow> Inl ValueError))"

definition map_info_from_lines ::
  "string list \<Rightarrow> string \<Rightarrow> error + ((string \<rightharpoonup> string) \<times> entry list)" where
  "map_info_from_lines lines directory = map_info_loop lines directory Map.empty []"

text \<open>
  \<^verbatim>\<open>compute_type\<close> on a sequence of type names: one name is a builtin or a required type,
  several names are a higher-order type around the type of the names after the first;
  \<^verbatim>\<open>HIGHER_ORDER[outer_type_name]\<close> raises \<^verbatim>\<open>KeyError\<close> before the inner type is computed, and
  unpacking an empty sequence raises \<^verbatim>\<open>ValueError\<close>. \<^verbatim>\<open>Map.from_file\<close> opens and reads a
  file: the file system is outside this theory, and \<open>from_file\<close> is a parameter.
\<close>

definition BUILTINS :: "string \<rightharpoonup> ty" where
  "BUILTINS = [''string'' \<mapsto> String, ''int'' \<mapsto> UnsignedInt, ''sint'' \<mapsto> SignedInt,
               ''bool'' \<mapsto> Boolean]"

definition HIGHER_ORDER :: "string \<rightharpoonup> (ty \<Rightarrow> ty)" where
  "HIGHER_ORDER = [''list'' \<mapsto> List, ''optional'' \<mapsto> Optional]"

fun compute_type ::
  "(string \<Rightarrow> error + ty) \<Rightarrow> string list \<Rightarrow> (string \<rightharpoonup> string) \<Rightarrow> error + ty" where
  "compute_type from_file [] user_types = Inl ValueError"
| "compute_type from_file [description] user_types =
     (case BUILTINS description of
        Some T \<Rightarrow> Inr T
      | None \<Rightarrow>
          (case user_types description of
             Some path \<Rightarrow> from_file path
           | None \<Rightarrow> Inl ValueError))"
| "compute_type from_file (outer_type_name # inner_type_names) user_types =
     (case HIGHER_ORDER outer_type_name of
        None \<Rightarrow> Inl (KeyError_name outer_type_name)
      | Some outer_type \<Rightarrow>
          (case compute_type from_file inner_type_names user_types of
             Inl e \<Rightarrow> Inl e
           | Inr inner_type \<Rightarrow> Inr (outer_type inner_type)))"

text \<open>
  \<^verbatim>\<open>Map.from_lines\<close>: the entry specifications in the order of the lines, the first
  exception ending the list comprehension.
\<close>

fun entry_specs_of ::
  "(string \<Rightarrow> error + ty) \<Rightarrow> entry list \<Rightarrow> (string \<rightharpoonup> string)
   \<Rightarrow> error + MapEntrySpec list" where
  "entry_specs_of from_file [] user_types = Inr []"
| "entry_specs_of from_file ((k, field, description) # entries) user_types =
     (case compute_type from_file description user_types of
        Inl e \<Rightarrow> Inl e
      | Inr T \<Rightarrow>
          (case entry_specs_of from_file entries user_types of
             Inl e \<Rightarrow> Inl e
           | Inr specs \<Rightarrow> Inr ((k, field, T) # specs)))"

definition Map_from_lines ::
  "(string \<Rightarrow> error + ty) \<Rightarrow> string list \<Rightarrow> string \<Rightarrow> string option \<Rightarrow> error + ty" where
  "Map_from_lines from_file lines directory type_name =
     (case map_info_from_lines lines directory of
        Inl e \<Rightarrow> Inl e
      | Inr (user_types, entries) \<Rightarrow>
          (case entry_specs_of from_file entries user_types of
             Inl e \<Rightarrow> Inl e
           | Inr entry_specs \<Rightarrow> Inr (Map entry_specs type_name)))"

section \<open>Well-formed type objects and the values of a type\<close>

text \<open>
  A code point that the UTF-8 codec encodes: a Unicode scalar value.
\<close>

definition scalar_value :: "nat \<Rightarrow> bool" where
  "scalar_value c = (is_code_point c \<and> \<not> is_surrogate c)"

text \<open>
  The values of a type: a non-negative integer for \<^verbatim>\<open>UnsignedInt\<close>, text of scalar values
  for \<^verbatim>\<open>String\<close>, and for a \<^verbatim>\<open>Map\<close> a dictionary whose keys are exactly the names of the
  entry specifications, each value being a value of the type that \<^verbatim>\<open>Map.to_bytes\<close> looks
  up for its name. The order of the dictionary is free.
\<close>

function (sequential) has_type :: "ty \<Rightarrow> pyval \<Rightarrow> bool" where
  "has_type UnsignedInt (VInt n) = (0 \<le> n)"
| "has_type SignedInt (VInt n) = True"
| "has_type Boolean (VBool b) = True"
| "has_type String (VStr text) = list_all scalar_value text"
| "has_type (List inner_type) (VList vals) = list_all (has_type inner_type) vals"
| "has_type (Optional inner_type) v = (v = VNone \<or> has_type inner_type v)"
| "has_type (Map entry_specs nm) (VDict d) =
     (distinct (map fst d) \<and> set (map fst d) = set (map name entry_specs)
      \<and> list_all (\<lambda>item. case specs_by_name entry_specs (fst item) of
                             None \<Rightarrow> False
                           | Some spec \<Rightarrow> has_type (value_type spec) (snd item)) d)"
| "has_type T v = False"
  by pat_completeness auto
termination
  apply (relation "measures [\<lambda>x. size (fst x), \<lambda>x. size (snd x)]")
  apply (auto dest!: specs_by_name_in_set value_type_smaller [where nm = None])
  done

text \<open>
  The field names that \<^verbatim>\<open>Map.read\<close> cannot hand to \<^verbatim>\<open>Map.__call__\<close> and
  \<^verbatim>\<open>UserType.__init__\<close> without a collision or an exception.
\<close>

definition reserved_names :: "string list" where
  "reserved_names = [''self'', ''_records'', ''__class__'', ''__dict__'', ''__weakref__'']"

text \<open>
  A type object is well formed when, in every \<^verbatim>\<open>Map\<close> in it, the keys are non-negative,
  no two entry specifications share a key or a name, and no field has a reserved name.
\<close>

fun wf_ty :: "ty \<Rightarrow> bool" where
  "wf_ty (List inner_type) = wf_ty inner_type"
| "wf_ty (Optional inner_type) = wf_ty inner_type"
| "wf_ty (Map entry_specs nm) =
     (distinct (map fst entry_specs) \<and> distinct (map (\<lambda>spec. fst (snd spec)) entry_specs)
      \<and> list_all (\<lambda>spec. 0 \<le> fst spec \<and> wf_ty (snd (snd spec))
                          \<and> fst (snd spec) \<notin> set reserved_names) entry_specs)"
| "wf_ty T = True"

text \<open>
  The entry specifications of a record type read with \<^verbatim>\<open>Map.read_as_dict\<close>, which builds
  no instance: the field names of the record itself are free.
\<close>

definition wf_specs :: "MapEntrySpec list \<Rightarrow> bool" where
  "wf_specs entry_specs =
     (distinct (map key entry_specs) \<and> distinct (map name entry_specs)
      \<and> list_all (\<lambda>spec. 0 \<le> key spec \<and> wf_ty (value_type spec)) entry_specs)"

section \<open>Equality of values\<close>

text \<open>
  Python's \<^verbatim>\<open>==\<close> on the values above. A \<^verbatim>\<open>bool\<close> is an \<^verbatim>\<open>int\<close>. Lists are equal when they
  have one length and equal items; dictionaries when they have one length and every key
  of the left one is a key of the right one with an equal value, whatever the order.
  \<^verbatim>\<open>UserType.__eq__\<close> compares \<^verbatim>\<open>_records\<close> with a dictionary, or with the \<^verbatim>\<open>_records\<close> of
  the other operand; a dictionary on the left leaves the comparison to the instance on
  the right. An operand of another type has no \<^verbatim>\<open>_records\<close>: \<^verbatim>\<open>AttributeError\<close>.
\<close>

function (sequential) py_eq :: "pyval \<Rightarrow> pyval \<Rightarrow> error + bool"
  and list_eq :: "pyval list \<Rightarrow> pyval list \<Rightarrow> error + bool"
  and items_eq :: "pydict \<Rightarrow> pydict \<Rightarrow> error + bool"
  and item_eq :: "string \<Rightarrow> pyval \<Rightarrow> pydict \<Rightarrow> error + bool"
where
  "py_eq (UserType n r attrs) (VDict d) = py_eq r (VDict d)"
| "py_eq (VDict d) (UserType n r attrs) = py_eq r (VDict d)"
| "py_eq (UserType n r attrs) (UserType n' r' attrs') = py_eq r r'"
| "py_eq (UserType n r attrs) v = Inl AttributeError"
| "py_eq v (UserType n r attrs) = Inl AttributeError"
| "py_eq (VInt i) (VInt j) = Inr (i = j)"
| "py_eq (VInt i) (VBool b) = Inr (i = (if b then 1 else 0))"
| "py_eq (VBool b) (VInt i) = Inr (i = (if b then 1 else 0))"
| "py_eq (VBool b) (VBool c) = Inr (b = c)"
| "py_eq (VStr s) (VStr t) = Inr (s = t)"
| "py_eq VNone VNone = Inr True"
| "py_eq (VList xs) (VList ys) =
     (if length xs \<noteq> length ys then Inr False else list_eq xs ys)"
| "py_eq (VDict a) (VDict b) =
     (if length a \<noteq> length b then Inr False else items_eq a b)"
| "py_eq v w = Inr False"
| "list_eq (x # xs) (y # ys) =
     (case py_eq x y of
        Inl e \<Rightarrow> Inl e
      | Inr eq \<Rightarrow> if eq then list_eq xs ys else Inr False)"
| "list_eq xs ys = Inr True"
| "items_eq [] b = Inr True"
| "items_eq ((k, v) # a) b =
     (case item_eq k v b of
        Inl e \<Rightarrow> Inl e
      | Inr eq \<Rightarrow> if eq then items_eq a b else Inr False)"
| "item_eq k v [] = Inr False"
| "item_eq k v ((k', v') # b) = (if k = k' then py_eq v v' else item_eq k v b)"
  by pat_completeness auto
termination
  apply (relation "measure (\<lambda>x. case x of
            Inl (Inl (v, w)) \<Rightarrow> size v + size w
          | Inl (Inr (xs, ys)) \<Rightarrow> size_list size xs + size_list size ys
          | Inr (Inl (a, b)) \<Rightarrow>
              size_list (size_prod (\<lambda>x. 0) size) a + size_list (size_prod (\<lambda>x. 0) size) b
          | Inr (Inr (k, v, b)) \<Rightarrow> Suc (size v + size_list (size_prod (\<lambda>x. 0) size) b))")
  apply auto
  done

section \<open>Collecting a generator\<close>

text \<open>
  \<^verbatim>\<open>bytes(generator)\<close>, as the tests consume an encoder: it pulls every item, raises
  \<^verbatim>\<open>ValueError\<close> at an item outside \<^verbatim>\<open>range(256)\<close>, lets an exception of the generator
  through, and returns the bytes only when the generator has ended.
\<close>

definition py_bytes :: "gen \<Rightarrow> error + byte list" where
  "py_bytes g =
     (if list_all (\<lambda>b. 0 \<le> b \<and> b < 256) (fst g)
      then (case snd g of Some e \<Rightarrow> Inl e | None \<Rightarrow> Inr (fst g))
      else Inl ValueError)"

section \<open>Items of a record value\<close>

text \<open>
  One round of the loop of \<^verbatim>\<open>Map.to_bytes\<close> takes an item of the dictionary. The item is
  encoded when \<^verbatim>\<open>specs_by_name\<close> has a specification for its name and the encoder of that
  specification's type ends without an exception on its value; the round then yields the
  key of the specification and the bytes of the value.
\<close>

definition item_encodes :: "MapEntrySpec list \<Rightarrow> string \<times> pyval \<Rightarrow> bool" where
  "item_encodes entry_specs item =
     (case specs_by_name entry_specs (fst item) of
        None \<Rightarrow> False
      | Some spec \<Rightarrow> snd (to_bytes (value_type spec) (snd item)) = None)"

definition item_bytes :: "MapEntrySpec list \<Rightarrow> string \<times> pyval \<Rightarrow> byte list" where
  "item_bytes entry_specs item =
     (case specs_by_name entry_specs (fst item) of
        None \<Rightarrow> []
      | Some spec \<Rightarrow>
          UnsignedInt_to_bytes (key spec) @ fst (to_bytes (value_type spec) (snd item)))"

section \<open>Entries of a record payload\<close>

text \<open>
  A record payload is the number of entries followed by the entries, each a key and the
  bytes of a value. An entry \<open>(k, b, v)\<close> of a payload decodes when \<open>k\<close> is a key that
  \<^verbatim>\<open>UnsignedInt\<close> writes, \<^verbatim>\<open>Map.read_key\<close> finds an entry specification for it, and that
  specification's type reads the value \<open>v\<close> from the bytes \<open>b\<close>, whatever follows them.
  \<open>field_of\<close> is the item that \<^verbatim>\<open>Map.read_key\<close> returns for such an entry.
\<close>

definition field_of :: "MapEntrySpec list \<Rightarrow> int \<times> byte list \<times> pyval \<Rightarrow> string \<times> pyval" where
  "field_of entry_specs entry =
     (case spec_by_key entry_specs (fst entry) of
        None \<Rightarrow> ([], snd (snd entry))
      | Some spec \<Rightarrow> (name spec, snd (snd entry)))"

definition decodes :: "MapEntrySpec list \<Rightarrow> int \<times> byte list \<times> pyval \<Rightarrow> bool" where
  "decodes entry_specs entry =
     (0 \<le> fst entry
      \<and> (\<exists>spec. spec_by_key entry_specs (fst entry) = Some spec
             \<and> (\<forall>rest. read (value_type spec) (fst (snd entry) @ rest)
                         = Inr (snd (snd entry), rest))))"

section \<open>Round trips\<close>

text \<open>
  A value makes the round trip through a type when its encoder ends without an exception
  and the decoder, on an iterator over the bytes yielded and any bytes after them, returns
  a value equal to it (\<^verbatim>\<open>==\<close>) and leaves exactly the bytes after them. An item of a
  dictionary is typed when \<^verbatim>\<open>specs_by_name\<close> has a specification for its name and its value
  is a value of that specification's type.
\<close>

definition roundtrips :: "ty \<Rightarrow> pyval \<Rightarrow> bool" where
  "roundtrips T v =
     (\<exists>bs v'. to_bytes T v = (bs, None)
        \<and> (\<forall>rest. read T (bs @ rest) = Inr (v', rest))
        \<and> py_eq v' v = Inr True)"

definition typed_item :: "MapEntrySpec list \<Rightarrow> string \<times> pyval \<Rightarrow> bool" where
  "typed_item entry_specs item =
     (case specs_by_name entry_specs (fst item) of
        None \<Rightarrow> False
      | Some spec \<Rightarrow> has_type (value_type spec) (snd item))"

section \<open>Properties of the variable-length integers\<close>

lemma mask7: "(127::int) = mask 7"
  by (simp add: mask_eq_exp_minus_1)

lemma bit_128: "bit (128::int) k \<longleftrightarrow> k = 7" 
  using bit_exp_iff [of 7 k, where 'a = int] by simp

lemma low7_no_flag: "(n AND 127) AND (128::int) = 0"
  unfolding mask7 by (rule bit_eqI) (auto simp add: bit_simps bit_128)

lemma flag_set: "((n AND 127) OR 128) AND (128::int) \<noteq> 0"
proof -
  have "bit (((n AND 127) OR 128) AND (128::int)) 7"
    by (simp add: bit_simps bit_128)
  then show ?thesis by auto
qed

lemma flag_low7: "((n AND 127) OR 128) AND (127::int) = n AND 127"
  unfolding mask7 by (rule bit_eqI) (auto simp add: bit_simps bit_128)

lemma split7: "(n AND 127) OR push_bit 7 (drop_bit 7 n) = (n::int)"
  unfolding mask7
proof (rule bit_eqI)
  fix k show "bit (n AND mask 7 OR push_bit 7 (drop_bit 7 n)) k = bit n k"
    by (cases "k < 7") (auto simp add: bit_simps)
qed

lemma low7_small: "drop_bit 7 n = 0 \<Longrightarrow> n AND 127 = (n::int)"
  using split7 [of n] by simp

lemma push_group:
  "(number OR push_bit offset (g::int)) OR push_bit (offset + 7) m
   = number OR push_bit offset (g OR push_bit 7 m)"
proof -
  have "push_bit offset (g OR push_bit 7 m) = push_bit offset g OR push_bit (offset + 7) m"
    by (simp only: push_bit_or push_bit_push_bit add.commute)
  then show ?thesis by (simp only: or.assoc)
qed

lemma UnsignedInt_read_loop_to_bytes:
  "0 \<le> n \<Longrightarrow>
   UnsignedInt_read_loop number offset (UnsignedInt_to_bytes n @ rest)
   = (number OR push_bit offset n, rest)"
proof (induction n arbitrary: number offset rule: UnsignedInt_to_bytes.induct)
  case (1 n)
  let ?n' = "drop_bit 7 n"
  have nn: "0 \<le> ?n'" using 1(2) by simp
  show ?case
  proof (cases "?n' = 0")
    case True
    then show ?thesis using low7_small [OF True] low7_no_flag [of n]
      by (subst UnsignedInt_to_bytes.simps) (simp add: Let_def)
  next
    case False
    then have pos: "0 < ?n'" using nn by linarith
    have ih: "UnsignedInt_read_loop (number OR push_bit offset (n AND 127)) (offset + 7)
                (UnsignedInt_to_bytes ?n' @ rest)
              = ((number OR push_bit offset (n AND 127)) OR push_bit (offset + 7) ?n', rest)"
      using 1(1) [OF refl refl refl pos nn] .
    have eq: "(number OR push_bit offset (n AND 127)) OR push_bit (offset + 7) ?n'
              = number OR push_bit offset n"
      by (simp only: push_group split7)
    have "UnsignedInt_to_bytes n = ((n AND 127) OR 128) # UnsignedInt_to_bytes ?n'"
      using pos by (subst UnsignedInt_to_bytes.simps) (simp add: Let_def)
    then show ?thesis using flag_set [of n] flag_low7 [of n] ih eq
      by (simp add: Let_def del: push_bit_and)
  qed
qed

lemma UnsignedInt_roundtrip:
  "0 \<le> n \<Longrightarrow> UnsignedInt_read (UnsignedInt_to_bytes n @ rest) = (n, rest)"
  by (simp add: UnsignedInt_read_def UnsignedInt_read_loop_to_bytes)

lemma UnsignedInt_to_bytes_small:
  "0 \<le> n \<Longrightarrow> n < 128 \<Longrightarrow> UnsignedInt_to_bytes n = [n]"
proof -
  assume a: "0 \<le> n" "n < 128"
  then have z: "drop_bit 7 n = 0" by (simp add: drop_bit_eq_div)
  show ?thesis using low7_small [OF z] z
    by (subst UnsignedInt_to_bytes.simps) (simp add: Let_def)
qed

lemma Boolean_roundtrip:
  "Boolean_read (Boolean_to_bytes b @ rest) = (b, rest)"
  by (simp add: Boolean_read_def Boolean_to_bytes_def UnsignedInt_roundtrip)

lemma SignedInt_roundtrip:
  "SignedInt_read (SignedInt_to_bytes n @ rest) = (n, rest)"
  by (simp add: SignedInt_read_def SignedInt_to_bytes_def Boolean_roundtrip UnsignedInt_roundtrip)

lemma UnsignedInt_read_loop_unterminated:
  "\<forall>b \<in> set bs. b AND 128 \<noteq> 0 \<Longrightarrow>
   UnsignedInt_read_loop number offset bs
   = (number OR push_bit offset (foldr (\<lambda>b acc. (b AND 127) OR push_bit 7 acc) bs 0), [])"
proof (induction bs arbitrary: number offset)
  case Nil
  then show ?case by simp
next
  case (Cons b bs)
  then show ?case by (simp add: Let_def push_group del: push_bit_and)
qed

section \<open>Properties of the text codec\<close>

lemma decode_one_byte: "c < 0x80 \<Longrightarrow> decode_code_point (int c # rest) = Some (c, rest)"
  by simp

lemma decode_two_bytes:
  assumes "\<not> c < 0x80" "c < 0x800"
  shows "decode_code_point (int (0xC0 + c div 64) # int (0x80 + c mod 64) # rest) = Some (c, rest)"
proof -
  define a where "a = c div 64"
  define d where "d = c mod 64"
  have c: "c = a * 64 + d" by (simp add: a_def d_def)
  have d: "d < 64" by (simp add: d_def)
  have a: "2 \<le> a" "a < 32" using assms c d by linarith+
  have v: "nat ((int (0xC0 + a) - 0xC0) * 64 + (int (0x80 + d) - 0x80)) = c"
    by (simp add: c nat_add_distrib nat_mult_distrib)
  show ?thesis unfolding a_def [symmetric] d_def [symmetric] using d a v 
    by (simp add: continuation_def)
qed

lemma split3:
  fixes c :: nat
  shows "c = c div 4096 * 4096 + c div 64 mod 64 * 64 + c mod 64"
proof -
  have "c div 4096 = c div 64 div 64" by (simp add: div_mult2_eq)
  moreover have "c div 64 = c div 64 div 64 * 64 + c div 64 mod 64" by simp
  moreover have "c = c div 64 * 64 + c mod 64" by simp
  ultimately show ?thesis by linarith
qed

lemma decode_three_bytes:
  assumes "\<not> c < 0x800" "c < 0x10000" "\<not> is_surrogate c"
  shows "decode_code_point (int (0xE0 + c div 4096) # int (0x80 + c div 64 mod 64)
            # int (0x80 + c mod 64) # rest) = Some (c, rest)"
proof -
  define a where "a = c div 4096"
  define b where "b = c div 64 mod 64"
  define d where "d = c mod 64"
  have c: "c = a * 4096 + b * 64 + d" unfolding a_def b_def d_def by (rule split3)
  have d: "d < 64" by (simp add: d_def)
  have b: "b < 64" by (simp add: b_def)
  have a: "a < 16" using assms c d b by linarith
  have lo: "a = 0 \<Longrightarrow> 32 \<le> b" using assms(1) c d by linarith
  have "c < 0xD800 \<or> 0xDFFF < c" using assms(3) by (auto simp: is_surrogate_def)
  then have hi: "a = 13 \<Longrightarrow> b < 32" using c d b by linarith
  have v: "nat ((int (0xE0 + a) - 0xE0) * 4096 + (int (0x80 + b) - 0x80) * 64
                + (int (0x80 + d) - 0x80)) = c"
    by (simp add: c nat_add_distrib nat_mult_distrib)
  show ?thesis unfolding a_def [symmetric] b_def [symmetric] d_def [symmetric]
    using d b a lo hi v by (auto simp add: continuation_def)
qed

lemma split4:
  fixes c :: nat
  shows "c = c div 262144 * 262144 + c div 4096 mod 64 * 4096 + c div 64 mod 64 * 64 + c mod 64"
proof -
  have "c div 262144 = c div 4096 div 64" by (simp add: div_mult2_eq)
  moreover have "c div 4096 = c div 4096 div 64 * 64 + c div 4096 mod 64" by simp
  moreover have "c = c div 4096 * 4096 + c div 64 mod 64 * 64 + c mod 64" by (rule split3)
  ultimately show ?thesis by linarith
qed

lemma decode_four_bytes:
  assumes "\<not> c < 0x10000" "c < 0x110000"
  shows "decode_code_point (int (0xF0 + c div 262144) # int (0x80 + c div 4096 mod 64)
            # int (0x80 + c div 64 mod 64) # int (0x80 + c mod 64) # rest) = Some (c, rest)"
proof -
  define a where "a = c div 262144"
  define b where "b = c div 4096 mod 64"
  define b' where "b' = c div 64 mod 64"
  define d where "d = c mod 64"
  have c: "c = a * 262144 + b * 4096 + b' * 64 + d" unfolding a_def b_def b'_def d_def by (rule split4)
  have d: "d < 64" by (simp add: d_def)
  have b: "b < 64" by (simp add: b_def)
  have b': "b' < 64" by (simp add: b'_def)
  have a: "a \<le> 4" using assms c d b by linarith
  have lo: "a = 0 \<Longrightarrow> 16 \<le> b" using assms(1) c d b' by linarith
  have hi: "a = 4 \<Longrightarrow> b < 16" using assms(2) c by linarith
  have v: "nat ((int (0xF0 + a) - 0xF0) * 262144 + (int (0x80 + b) - 0x80) * 4096
                + (int (0x80 + b') - 0x80) * 64 + (int (0x80 + d) - 0x80)) = c"
    by (simp add: c nat_add_distrib nat_mult_distrib)
  show ?thesis unfolding a_def [symmetric] b_def [symmetric] b'_def [symmetric] d_def [symmetric]
    using d b b' a lo hi v by (auto simp add: continuation_def)
qed

lemma encode_code_point_decode:
  assumes "scalar_value c"
  shows "\<exists>bs. encode_code_point c = Inr bs \<and> bs \<noteq> [] \<and> (\<forall>b\<in>set bs. 0 \<le> b \<and> b < 256)
              \<and> (\<forall>rest. decode_code_point (bs @ rest) = Some (c, rest))"
proof -
  from assms have cp: "c < 0x110000" and ns: "\<not> is_surrogate c"
    by (simp_all add: scalar_value_def is_code_point_def)
  consider "c < 0x80" | "\<not> c < 0x80" "c < 0x800" | "\<not> c < 0x800" "c < 0x10000"
    | "\<not> c < 0x10000" by linarith
  then show ?thesis
  proof cases
    case 1
    then show ?thesis by (simp add: encode_code_point_def)
  next
    case 2
    have "c div 64 < 64" using 2 by simp
    moreover have "c mod 64 < 128" by (rule less_trans [OF mod_less_divisor]) simp_all
    ultimately show ?thesis using 2 decode_two_bytes [OF 2]
      by (simp add: encode_code_point_def del: decode_code_point.simps)
  next
    case 3
    have "c div 4096 < 32" using 3 by simp
    moreover have "c div 64 mod 64 < 128" "c mod 64 < 128"
      by (rule less_trans [OF mod_less_divisor]; simp)+
    ultimately show ?thesis using 3 ns decode_three_bytes [OF 3 ns]
      by (simp add: encode_code_point_def del: decode_code_point.simps)
  next
    case 4
    have "c div 262144 < 16" using cp by simp
    moreover have "c div 4096 mod 64 < 128" "c div 64 mod 64 < 128" "c mod 64 < 128"
      by (rule less_trans [OF mod_less_divisor]; simp)+
    ultimately show ?thesis using 4 cp ns decode_four_bytes [OF 4 cp]
      by (simp add: encode_code_point_def del: decode_code_point.simps)
  qed
qed

lemma encode_utf8_decode:
  "list_all scalar_value s \<Longrightarrow>
   \<exists>bs. encode_utf8 s = Inr bs \<and> (\<forall>b\<in>set bs. 0 \<le> b \<and> b < 256) \<and> decode_utf8 bs = Inr s"
proof (induction s)
  case Nil
  then show ?case by (simp add: decode_utf8.simps)
next
  case (Cons c s)
  then obtain bs2 where bs2: "encode_utf8 s = Inr bs2" "\<forall>b\<in>set bs2. 0 \<le> b \<and> b < 256"
      "decode_utf8 bs2 = Inr s"
    by auto
  from Cons.prems obtain bs1 where bs1: "encode_code_point c = Inr bs1" "bs1 \<noteq> []"
      "\<forall>b\<in>set bs1. 0 \<le> b \<and> b < 256" "\<And>rest. decode_code_point (bs1 @ rest) = Some (c, rest)"
    using encode_code_point_decode [of c] by auto
  have "decode_utf8 (bs1 @ bs2) = Inr (c # s)"
    using bs1(2,4) bs2(3) by (subst decode_utf8.simps) simp
  then show ?case using bs1 bs2 by auto
qed

lemma read_n_bytes_zero: "read_n_bytes 0 rest = Inr ([], rest)"
  by (cases rest) simp_all

lemma read_n_bytes_exact:
  "\<forall>b\<in>set bs. 0 \<le> b \<and> b < 256 \<Longrightarrow>
   read_n_bytes (int (length bs)) (bs @ rest) = Inr (bs, rest)"
  by (induction bs) (simp_all add: read_n_bytes_zero)

lemma String_roundtrip:
  assumes "list_all scalar_value s"
  shows "\<exists>bs. String_to_bytes s = (bs, None)
              \<and> (\<forall>rest. String_read (bs @ rest) = Inr (s, rest))"
proof -
  from encode_utf8_decode [OF assms] obtain encoded where
    e: "encode_utf8 s = Inr encoded" "\<forall>b\<in>set encoded. 0 \<le> b \<and> b < 256"
       "decode_utf8 encoded = Inr s"
    by auto
  have "String_read ((UnsignedInt_to_bytes (int (length encoded)) @ encoded) @ rest)
        = Inr (s, rest)" for rest
    using e(3) read_n_bytes_exact [OF e(2)]
    by (simp add: String_read_def UnsignedInt_roundtrip)
  then show ?thesis using e(1) by (simp add: String_to_bytes_def yield_all_def)
qed

section \<open>Properties of the record codec\<close>

lemma yield_from_yield_all [simp]:
  "yield_from (yield_all bs) g = (bs @ fst g, snd g)"
  "yield_from (bs, None) g = (bs @ fst g, snd g)"
  by (simp_all add: yield_from_def yield_all_def)

lemma specs_by_name_foldl:
  "foldl (\<lambda>m spec. m(name spec \<mapsto> spec)) m0 specs n = Some s \<Longrightarrow>
   (s \<in> set specs \<and> name s = n) \<or> m0 n = Some s"
proof (induction specs arbitrary: m0)
  case Nil
  then show ?case by simp
next
  case (Cons a specs)
  from Cons.IH [of "m0(name a \<mapsto> a)"] Cons.prems
  show ?case by (auto split: if_splits)
qed

lemma specs_by_name_name:
  "specs_by_name specs n = Some s \<Longrightarrow> name s = n"
  using specs_by_name_foldl [of Map.empty specs n s] by (simp add: specs_by_name_def)

lemma spec_by_key_distinct:
  "distinct (map key specs) \<Longrightarrow> s \<in> set specs \<Longrightarrow> spec_by_key specs (key s) = Some s"
  unfolding spec_by_key_def
  by (induction specs) (auto simp: rev_image_eqI)

lemma dict_set_new:
  "k \<notin> set (map fst d) \<Longrightarrow> dict_set d k v = d @ [(k, v)]"
  by (induction d) auto

lemma setattr_loop_records:
  "set (map fst kwargs) \<inter> set reserved_names = {} \<Longrightarrow>
   \<exists>n a. setattr_loop (UserType n0 r a0) kwargs = Inr (UserType n r a)"
proof (induction kwargs arbitrary: n0 a0)
  case Nil
  then show ?case by simp
next
  case (Cons kv kwargs)
  obtain k v where kv: "kv = (k, v)" by (cases kv)
  with Cons.prems have "k \<notin> set reserved_names"
    "set (map fst kwargs) \<inter> set reserved_names = {}"
    by auto
  then show ?case using Cons.IH kv by (simp add: reserved_names_def)
qed

lemma Map_call_records:
  assumes "set (map fst d) \<inter> set reserved_names = {}"
  shows "\<exists>n a. Map_call nm d = Inr (UserType n (VDict d) a)"
proof -
  have "''self'' \<notin> set (map fst d)" using assms by (auto simp: reserved_names_def)
  then show ?thesis
    using setattr_loop_records [OF assms, of "name_value nm" "VDict d" "[]"]
    by (simp add: Map_call_def)
qed

lemma item_eq_found:
  "distinct (map fst b) \<Longrightarrow> (k, v') \<in> set b \<Longrightarrow> item_eq k v b = py_eq v v'"
  by (induction b) (auto simp: rev_image_eqI)

lemma items_eq_all:
  "distinct (map fst b) \<Longrightarrow>
   \<forall>(k, v) \<in> set a. \<exists>v'. (k, v') \<in> set b \<and> py_eq v v' = Inr True \<Longrightarrow>
   items_eq a b = Inr True"
proof (induction a)
  case Nil
  then show ?case by simp
next
  case (Cons kv a)
  obtain k v where kv: "kv = (k, v)" by (cases kv)
  with Cons.prems obtain v' where "(k, v') \<in> set b" "py_eq v v' = Inr True" by auto
  then have "item_eq k v b = Inr True" using item_eq_found [OF Cons.prems(1)] by simp
  then show ?case using Cons kv by simp
qed

lemma list_eq_all2:
  "list_all2 (\<lambda>v' v. py_eq v' v = Inr True) xs ys \<Longrightarrow> list_eq xs ys = Inr True"
  by (induction xs ys rule: list_all2_induct) simp_all

lemma List_loop_roundtrip:
  assumes IH: "\<And>v. has_type T v \<Longrightarrow> roundtrips T v"
  shows "list_all (has_type T) vs \<Longrightarrow>
    \<exists>bs vs'. List_to_bytes_loop T vs = (bs, None)
      \<and> (\<forall>rest acc. List_read_loop T (length vs) acc (bs @ rest) = Inr (acc @ vs', rest))
      \<and> list_all2 (\<lambda>v' v. py_eq v' v = Inr True) vs' vs"
proof (induction vs)
  case Nil
  then show ?case by (simp add: yield_all_def)
next
  case (Cons v vs)
  from Cons.prems have "has_type T v" "list_all (has_type T) vs" by simp_all
  from IH [OF this(1)] obtain b1 v' where
    v: "to_bytes T v = (b1, None)" "\<And>rest. read T (b1 @ rest) = Inr (v', rest)"
       "py_eq v' v = Inr True"
    by (auto simp: roundtrips_def)
  from Cons.IH [OF \<open>list_all (has_type T) vs\<close>] obtain b2 vs' where
    vs: "List_to_bytes_loop T vs = (b2, None)"
        "\<And>rest acc. List_read_loop T (length vs) acc (b2 @ rest) = Inr (acc @ vs', rest)"
        "list_all2 (\<lambda>v' v. py_eq v' v = Inr True) vs' vs"
    by auto
  have "List_to_bytes_loop T (v # vs) = (b1 @ b2, None)"
    using v(1) vs(1) by simp
  moreover have "List_read_loop T (length (v # vs)) acc ((b1 @ b2) @ rest)
                 = Inr (acc @ v' # vs', rest)" for rest acc
    using v(2) [of "b2 @ rest"] vs(2) [of "acc @ [v']" rest] by simp
  moreover have "list_all2 (\<lambda>v' v. py_eq v' v = Inr True) (v' # vs') (v # vs)"
    using v(3) vs(3) by simp
  ultimately show ?case by blast
qed

lemma Map_loop_roundtrip:
  assumes wf: "distinct (map key specs)" "\<forall>spec \<in> set specs. 0 \<le> key spec"
    and IH: "\<And>spec v. spec \<in> set specs \<Longrightarrow> has_type (value_type spec) v
                \<Longrightarrow> roundtrips (value_type spec) v"
  shows "distinct (map fst items) \<Longrightarrow> list_all (typed_item specs) items \<Longrightarrow>
    \<exists>bs items'. Map_to_bytes_loop specs items = (bs, None)
      \<and> (\<forall>rest acc. set (map fst acc) \<inter> set (map fst items) = {} \<longrightarrow>
             Map_read_loop specs (length items) acc (bs @ rest) = Inr (acc @ items', rest))
      \<and> list_all2 (\<lambda>i' i. fst i' = fst i \<and> py_eq (snd i') (snd i) = Inr True) items' items"
proof (induction items)
  case Nil
  then show ?case by (simp add: yield_all_def)
next
  case (Cons item items)
  obtain field v where item: "item = (field, v)" by (cases item)
  from Cons.prems item obtain spec where
    spec: "specs_by_name specs field = Some spec" "has_type (value_type spec) v"
    by (auto simp: typed_item_def split: option.splits)
  have mem: "spec \<in> set specs" using spec(1) by (rule specs_by_name_in_set)
  have nm: "name spec = field" using spec(1) by (rule specs_by_name_name)
  have key: "0 \<le> key spec" using wf(2) mem by blast
  have find: "spec_by_key specs (key spec) = Some spec"
    using wf(1) mem by (rule spec_by_key_distinct)
  from IH [OF mem spec(2)] obtain b1 v' where
    v: "to_bytes (value_type spec) v = (b1, None)"
       "\<And>rest. read (value_type spec) (b1 @ rest) = Inr (v', rest)"
       "py_eq v' v = Inr True"
    by (auto simp: roundtrips_def)
  from Cons.prems item have "distinct (map fst items)" "list_all (typed_item specs) items"
    "field \<notin> set (map fst items)"
    by simp_all
  from Cons.IH [OF this(1,2)] obtain b2 items' where
    its: "Map_to_bytes_loop specs items = (b2, None)"
         "\<And>rest acc. set (map fst acc) \<inter> set (map fst items) = {} \<Longrightarrow>
             Map_read_loop specs (length items) acc (b2 @ rest) = Inr (acc @ items', rest)"
         "list_all2 (\<lambda>i' i. fst i' = fst i \<and> py_eq (snd i') (snd i) = Inr True) items' items"
    by auto
  let ?bs = "UnsignedInt_to_bytes (key spec) @ b1 @ b2"
  have enc: "Map_to_bytes_loop specs (item # items) = (?bs, None)"
    using item spec(1) v(1) its(1) by simp
  have dec: "Map_read_loop specs (length (item # items)) acc (?bs @ rest)
             = Inr (acc @ (field, v') # items', rest)"
    if disj: "set (map fst acc) \<inter> set (map fst (item # items)) = {}" for rest acc
  proof -
    have new: "field \<notin> set (map fst acc)" using disj item by auto
    have disj': "set (map fst (acc @ [(field, v')])) \<inter> set (map fst items) = {}"
      using disj \<open>field \<notin> set (map fst items)\<close> by auto
    have "Map_read_key specs (key spec) (b1 @ b2 @ rest) = Inr ((field, v'), b2 @ rest)"
      using find v(2) [of "b2 @ rest"] nm by simp
    then show ?thesis
      using UnsignedInt_roundtrip [OF key, of "b1 @ b2 @ rest"] dict_set_new [OF new, of v']
        its(2) [OF disj', of rest]
      by simp
  qed
  have "list_all2 (\<lambda>i' i. fst i' = fst i \<and> py_eq (snd i') (snd i) = Inr True)
          ((field, v') # items') (item # items)"
    using item v(3) its(3) by simp
  with enc dec show ?case by blast
qed

lemma selectors_fun:
  "key = fst" "name = (\<lambda>spec. fst (snd spec))" "value_type = (\<lambda>spec. snd (snd spec))"
  by (rule ext, simp add: key_def name_def value_type_def)+

lemma wf_ty_Map:
  "wf_ty (Map specs nm) =
     (wf_specs specs \<and> set (map name specs) \<inter> set reserved_names = {})"
  by (auto simp: wf_specs_def selectors_fun list_all_iff)

lemma has_type_Map:
  "has_type (Map specs nm) (VDict d) =
     (distinct (map fst d) \<and> set (map fst d) = set (map name specs)
      \<and> list_all (typed_item specs) d)"
  by (simp add: list_all_iff typed_item_def)

lemma dict_eq_same_items:
  assumes "list_all2 (\<lambda>i' i. fst i' = fst i \<and> py_eq (snd i') (snd i) = Inr True) d' d"
    and "set d0 = set d" "distinct (map fst d0)" "length d0 = length d"
  shows "py_eq (VDict d') (VDict d0) = Inr True"
proof -
  have "\<forall>(k, v) \<in> set d'. \<exists>v0. (k, v0) \<in> set d0 \<and> py_eq v v0 = Inr True"
  proof clarify
    fix k v assume "(k, v) \<in> set d'"
    then obtain j where j: "j < length d'" "d' ! j = (k, v)" by (auto simp: in_set_conv_nth)
    with assms(1) have "j < length d" "fst (d ! j) = k" "py_eq v (snd (d ! j)) = Inr True"
      by (auto simp: list_all2_conv_all_nth)
    moreover from this have "(k, snd (d ! j)) \<in> set d"
      by (metis nth_mem prod.collapse)
    ultimately show "\<exists>v0. (k, v0) \<in> set d0 \<and> py_eq v v0 = Inr True"
      using assms(2) by auto
  qed
  from items_eq_all [OF assms(3) this] show ?thesis
    using assms(1,4) by (simp add: list_all2_lengthD)
qed

lemma Map_dict_roundtrip:
  assumes wf: "wf_specs specs"
    and IH: "\<And>spec v. spec \<in> set specs \<Longrightarrow> has_type (value_type spec) v
                \<Longrightarrow> roundtrips (value_type spec) v"
    and ty: "has_type (Map specs nm) (VDict d)"
  shows "\<exists>bs d'. to_bytes (Map specs nm) (VDict d) = (bs, None)
           \<and> (\<forall>rest. Map_read_as_dict specs (bs @ rest) = Inr (d', rest))
           \<and> list_all2 (\<lambda>i' i. fst i' = fst i \<and> py_eq (snd i') (snd i) = Inr True) d' d"
proof -
  from ty have d: "distinct (map fst d)" "set (map fst d) = set (map name specs)"
    "list_all (typed_item specs) d"
    unfolding has_type_Map by blast+
  from wf have k: "distinct (map key specs)" "\<forall>spec \<in> set specs. 0 \<le> key spec"
    by (simp_all add: wf_specs_def list_all_iff)
  from Map_loop_roundtrip [OF k IH d(1) d(3)] obtain b items' where
    l: "Map_to_bytes_loop specs d = (b, None)"
       "\<And>rest. Map_read_loop specs (length d) [] (b @ rest) = Inr (items', rest)"
       "list_all2 (\<lambda>i' i. fst i' = fst i \<and> py_eq (snd i') (snd i) = Inr True) items' d"
    by fastforce
  let ?bs = "UnsignedInt_to_bytes (int (length d)) @ b"
  have "to_bytes (Map specs nm) (VDict d) = (?bs, None)"
    using l(1) d(2) by (simp add: Let_def yield_all_def)
  moreover have "Map_read_as_dict specs (?bs @ rest) = Inr (items', rest)" for rest
    using UnsignedInt_roundtrip [of "int (length d)" "b @ rest"] l(2) [of rest] by simp
  ultimately show ?thesis using l(3) by blast
qed

lemma roundtrip:
  "wf_ty T \<Longrightarrow> has_type T v \<Longrightarrow> roundtrips T v"
proof (induction T arbitrary: v rule: measure_induct_rule [of size])
  case (less T)
  show ?case
  proof (cases T)
    case UnsignedInt
    with less.prems obtain n where "v = VInt n" "0 \<le> n" by (cases v) simp_all
    then show ?thesis using UnsignedInt
      by (simp add: roundtrips_def yield_all_def UnsignedInt_roundtrip)
  next
    case SignedInt
    with less.prems obtain n where "v = VInt n" by (cases v) simp_all
    then show ?thesis using SignedInt
      by (simp add: roundtrips_def yield_all_def SignedInt_roundtrip)
  next
    case Boolean
    with less.prems obtain b where "v = VBool b" by (cases v) simp_all
    then show ?thesis using Boolean
      by (simp add: roundtrips_def yield_all_def Boolean_roundtrip)
  next
    case String
    with less.prems obtain s where s: "v = VStr s" "list_all scalar_value s" by (cases v) simp_all
    from String_roundtrip [OF s(2)] show ?thesis using String s(1)
      by (auto simp: roundtrips_def)
  next
    case (List inner)
    with less.prems obtain vs where vs: "v = VList vs" "list_all (has_type inner) vs"
      by (cases v) simp_all
    have "\<And>w. has_type inner w \<Longrightarrow> roundtrips inner w"
      using less.IH [of inner] less.prems(1) List by simp
    from List_loop_roundtrip [OF this vs(2)] obtain b vs' where
      l: "List_to_bytes_loop inner vs = (b, None)"
         "\<And>rest. List_read_loop inner (length vs) [] (b @ rest) = Inr (vs', rest)"
         "list_all2 (\<lambda>v' v. py_eq v' v = Inr True) vs' vs"
      by fastforce
    let ?bs = "UnsignedInt_to_bytes (int (length vs)) @ b"
    have "to_bytes T v = (?bs, None)" using List vs(1) l(1) by simp
    moreover have "read T (?bs @ rest) = Inr (VList vs', rest)" for rest
      using List UnsignedInt_roundtrip [of "int (length vs)" "b @ rest"] l(2) [of rest] by simp
    moreover have "py_eq (VList vs') v = Inr True"
      using vs(1) l(3) list_eq_all2 [OF l(3)] by (simp add: list_all2_lengthD)
    ultimately show ?thesis unfolding roundtrips_def by blast
  next
    case (Optional inner)
    show ?thesis
    proof (cases "v = VNone")
      case True
      then show ?thesis using Optional
        by (simp add: roundtrips_def yield_all_def Boolean_roundtrip)
    next
      case False
      with less.prems Optional have "has_type inner v" "wf_ty inner" by simp_all
      with less.IH [of inner v] Optional obtain b v' where
        i: "to_bytes inner v = (b, None)" "\<And>rest. read inner (b @ rest) = Inr (v', rest)"
           "py_eq v' v = Inr True"
        by (auto simp: roundtrips_def)
      have "to_bytes T v = (Boolean_to_bytes True @ b, None)"
        using Optional False i(1) by simp
      moreover have "read T ((Boolean_to_bytes True @ b) @ rest) = Inr (v', rest)" for rest
        using Optional i(2) [of rest] Boolean_roundtrip [of True "b @ rest"] by simp
      ultimately show ?thesis using i(3) unfolding roundtrips_def by blast
    qed
  next
    case (Map specs nm)
    with less.prems obtain d where d: "v = VDict d"
      by (cases v) simp_all
    have "wf_specs specs \<and> set (map name specs) \<inter> set reserved_names = {}"
      using less.prems(1) unfolding Map wf_ty_Map .
    then have wf: "wf_specs specs"
      and res: "set (map name specs) \<inter> set reserved_names = {}"
      by blast+
    have IH: "roundtrips (value_type spec) w"
      if "spec \<in> set specs" "has_type (value_type spec) w" for spec w
    proof -
      have "size (value_type spec) < size T"
        using value_type_smaller [OF that(1), of nm] Map by simp
      moreover have "wf_ty (value_type spec)"
        using wf that(1) by (simp add: wf_specs_def list_all_iff)
      ultimately show ?thesis using less.IH that(2) by blast
    qed
    have ty: "has_type (Map specs nm) (VDict d)" using less.prems(2) Map d by simp
    from Map_dict_roundtrip [OF wf IH ty] obtain bs d' where
      m: "to_bytes (Map specs nm) (VDict d) = (bs, None)"
         "\<And>rest. Map_read_as_dict specs (bs @ rest) = Inr (d', rest)"
         "list_all2 (\<lambda>i' i. fst i' = fst i \<and> py_eq (snd i') (snd i) = Inr True) d' d"
      by blast
    have keys: "map fst d' = map fst d"
      using m(3) by (induction d' d rule: list_all2_induct) simp_all
    from ty have dd: "distinct (map fst d)" "set (map fst d) = set (map name specs)"
      unfolding has_type_Map by blast+
    have "set (map fst d') \<inter> set reserved_names = {}"
      using keys dd(2) res by simp
    from Map_call_records [OF this, of nm] obtain n a where
      call: "Map_call nm d' = Inr (UserType n (VDict d') a)"
      by auto
    have "read T (bs @ rest) = Inr (UserType n (VDict d') a, rest)" for rest
      using Map m(2) [of rest] call by simp
    moreover have "py_eq (UserType n (VDict d') a) v = Inr True"
      using dict_eq_same_items [OF m(3) refl dd(1) refl] d by simp
    ultimately show ?thesis using m(1) Map d unfolding roundtrips_def by blast
  qed
qed

lemma Map_to_bytes_loop_names:
  "snd (Map_to_bytes_loop specs d) = None \<Longrightarrow> set (map fst d) \<subseteq> set (map name specs)"
proof (induction d)
  case Nil
  then show ?case by simp
next
  case (Cons item d)
  obtain field v where item: "item = (field, v)" by (cases item)
  from Cons.prems item obtain spec where spec: "specs_by_name specs field = Some spec"
    by (cases "specs_by_name specs field") (simp_all add: raise_def)
  from Cons.prems item spec have "snd (Map_to_bytes_loop specs d) = None"
    by (simp add: yield_from_def yield_all_def split: option.splits)
  moreover have "field \<in> set (map name specs)"
    using specs_by_name_in_set [OF spec] specs_by_name_name [OF spec] by force
  ultimately show ?case using Cons.IH item by simp
qed

lemmas eval_defs = specs_by_name_def spec_by_key_def key_def name_def value_type_def
  UnsignedInt_to_bytes_small UnsignedInt_read_def Boolean_read_def Boolean_to_bytes_def
  yield_all_def raise_def yield_from_def Map_call_def name_value_def

lemma spec_by_key_None:
  "k \<notin> set (map key specs) \<Longrightarrow> spec_by_key specs k = None"
  by (auto simp: spec_by_key_def find_None_iff)

lemma Map_read_loop_add:
  "Map_read_loop specs (j + m) acc bs =
     (case Map_read_loop specs j acc bs of
        Inl e \<Rightarrow> Inl e
      | Inr (d, bs') \<Rightarrow> Map_read_loop specs m d bs')"
proof (induction j arbitrary: acc bs)
  case 0
  then show ?case by simp
next
  case (Suc j)
  obtain k bs1 where k: "UnsignedInt_read bs = (k, bs1)" by (cases "UnsignedInt_read bs")
  show ?case
  proof (cases "Map_read_key specs k bs1")
    case (Inl e)
    then show ?thesis using k by (simp del: Map_read_key.simps)
  next
    case (Inr r)
    then obtain field v bs2 where "Map_read_key specs k bs1 = Inr ((field, v), bs2)"
      by (cases r) auto
    then show ?thesis using k Suc.IH by (simp del: Map_read_key.simps)
  qed
qed

lemma map_of_dict_set: "map_of (dict_set d k v) = (map_of d)(k \<mapsto> v)"
  by (induction d) (auto simp: fun_eq_iff)

lemma map_of_foldl_dict_set:
  "map_of (foldl (\<lambda>d (f, v). dict_set d f v) acc items) = map_of (rev items @ acc)"
proof (induction items arbitrary: acc)
  case Nil
  then show ?case by simp
next
  case (Cons item items)
  obtain f v where item: "item = (f, v)" by (cases item)
  show ?case
    by (simp add: item Cons.IH map_of_dict_set map_add_def fun_eq_iff split: option.splits)
qed

lemma spec_by_key_key:
  "spec_by_key specs k = Some spec \<Longrightarrow> key spec = k"
  by (auto simp: spec_by_key_def find_Some_iff)

lemma entries_decode:
  "list_all (decodes specs) es \<Longrightarrow>
   Map_read_loop specs (length es) acc
     (concat (map (\<lambda>(k, b, v). UnsignedInt_to_bytes k @ b) es) @ rest)
   = Inr (foldl (\<lambda>d (f, v). dict_set d f v) acc (map (field_of specs) es), rest)"
proof (induction es arbitrary: acc)
  case Nil
  then show ?case by simp
next
  case (Cons e es)
  obtain k b v where e: "e = (k, b, v)" by (cases e)
  let ?tail = "concat (map (\<lambda>(k, b, v). UnsignedInt_to_bytes k @ b) es) @ rest"
  from Cons.prems e obtain spec where
    spec: "0 \<le> k" "spec_by_key specs k = Some spec"
      "\<And>rest. read (value_type spec) (b @ rest) = Inr (v, rest)"
    by (auto simp: decodes_def)
  have "Map_read_key specs k (b @ ?tail) = Inr ((name spec, v), ?tail)"
    using spec(2) spec(3) [of ?tail] by simp
  moreover have "field_of specs e = (name spec, v)"
    using e spec(2) by (simp add: field_of_def)
  moreover from Cons.prems have "list_all (decodes specs) es" by simp
  ultimately show ?case
    using UnsignedInt_roundtrip [OF spec(1), of "b @ ?tail"] e Cons.IH
    by (simp del: Map_read_key.simps)
qed

lemma last_occurrence:
  assumes "distinct (map name specs)" and "spec_by_key specs k0 = Some spec"
  shows "list_all (decodes specs) es \<Longrightarrow>
         map_of (map (\<lambda>(k, b, v). (k, v)) es) k0 = Some v \<Longrightarrow>
         map_of (map (field_of specs) es) (name spec) = Some v"
proof (induction es)
  case Nil
  then show ?case by simp
next
  case (Cons e es)
  obtain k b v1 where e: "e = (k, b, v1)" by (cases e)
  from Cons.prems(1) e obtain s where s: "spec_by_key specs k = Some s"
    by (auto simp: decodes_def)
  have f: "field_of specs e = (name s, v1)" using e s by (simp add: field_of_def)
  show ?case
  proof (cases "k = k0")
    case True
    with s assms(2) have "s = spec" by simp
    moreover from True Cons.prems(2) e have "v1 = v" by simp
    ultimately show ?thesis using f by simp
  next
    case False
    have "key s = k" "key spec = k0" "s \<in> set specs" "spec \<in> set specs"
      using s assms(2) by (auto dest: spec_by_key_key spec_by_key_in_set)
    with False assms(1) have "name s \<noteq> name spec"
      by (auto simp: distinct_map dest: inj_onD)
    moreover from False Cons.prems e have "map_of (map (\<lambda>(k, b, v). (k, v)) es) k0 = Some v"
      "list_all (decodes specs) es"
      by simp_all
    ultimately show ?thesis using f Cons.IH by simp
  qed
qed

lemma duplicate_key_example:
  "Map_read_as_dict [(1, ''name'', String), (2, ''age'', UnsignedInt)]
     [3, 2, 20, 1, 1, 65, 2, 21] = Inr ([(''age'', VInt 21), (''name'', VStr [65])], [])"
  by (simp add: eval_defs String_read_def read_n_bytes_zero decode_utf8.simps eval_nat_numeral)

lemma specs_by_name_None:
  "field \<notin> set (map name specs) \<Longrightarrow> specs_by_name specs field = None"
proof (cases "specs_by_name specs field")
  case None
  then show ?thesis .
next
  case (Some spec)
  assume "field \<notin> set (map name specs)"
  with specs_by_name_in_set [OF Some] specs_by_name_name [OF Some] show ?thesis by force
qed

lemma Map_to_bytes_loop_prefix:
  "list_all (item_encodes specs) pre \<Longrightarrow>
   Map_to_bytes_loop specs (pre @ post)
   = (concat (map (item_bytes specs) pre) @ fst (Map_to_bytes_loop specs post),
      snd (Map_to_bytes_loop specs post))"
proof (induction pre)
  case Nil
  then show ?case by simp
next
  case (Cons item pre)
  obtain field v where item: "item = (field, v)" by (cases item)
  from Cons.prems item obtain spec where
    spec: "specs_by_name specs field = Some spec" "snd (to_bytes (value_type spec) v) = None"
    by (auto simp: item_encodes_def split: option.splits)
  from Cons.prems have "list_all (item_encodes specs) pre" by simp
  from Cons.IH [OF this] spec item show ?case
    by (simp add: item_bytes_def yield_from_def yield_all_def)
qed

lemma dict_set_keys: "set (map fst (dict_set d k v)) = insert k (set (map fst d))"
proof (induction d)
  case Nil
  then show ?case by simp
next
  case (Cons item d)
  obtain k' v' where item: "item = (k', v')" by (cases item)
  show ?case
  proof (cases "k' = k")
    case True
    then show ?thesis by (simp add: item)
  next
    case False
    then show ?thesis using Cons.IH by (simp add: item insert_commute)
  qed
qed

lemma dict_set_distinct:
  "distinct (map fst d) \<Longrightarrow> distinct (map fst (dict_set d k v))"
proof (induction d)
  case Nil
  then show ?case by simp
next
  case (Cons item d)
  obtain k' v' where item: "item = (k', v')" by (cases item)
  from Cons show ?case using dict_set_keys [of d k v] by (auto simp: item)
qed

lemma foldl_dict_set_distinct:
  "distinct (map fst acc) \<Longrightarrow>
   distinct (map fst (foldl (\<lambda>d (f, v). dict_set d f v) acc items))"
proof (induction items arbitrary: acc)
  case Nil
  then show ?case by simp
next
  case (Cons item items)
  obtain f v where item: "item = (f, v)" by (cases item)
  from Cons.prems have "distinct (map fst (dict_set acc f v))" by (rule dict_set_distinct)
  from Cons.IH [OF this] show ?case by (simp add: item)
qed

lemma dict_set_names:
  "map fst (dict_set d k v) = (if k \<in> set (map fst d) then map fst d else map fst d @ [k])"
  by (induction d) force+

lemma remdups_drop_repeated:
  "x \<in> set zs \<Longrightarrow> remdups (as @ x # zs) = remdups (as @ zs)"
  by (induction as) auto

lemma foldl_dict_set_names:
  "distinct (map fst acc) \<Longrightarrow>
   map fst (foldl (\<lambda>d (f, v). dict_set d f v) acc items)
   = rev (remdups (rev (map fst acc @ map fst items)))"
proof (induction items arbitrary: acc)
  case Nil
  then show ?case by (simp add: distinct_remdups_id)
next
  case (Cons item items)
  obtain f v where item: "item = (f, v)" by (cases item)
  from Cons.prems have "distinct (map fst (dict_set acc f v))" by (rule dict_set_distinct)
  from Cons.IH [OF this]
  have "map fst (foldl (\<lambda>d (f, v). dict_set d f v) acc (item # items))
        = rev (remdups (rev (map fst (dict_set acc f v) @ map fst items)))"
    by (simp add: item)
  also have "\<dots> = rev (remdups (rev (map fst acc @ map fst (item # items))))"
  proof (cases "f \<in> set (map fst acc)")
    case True
    then have "f \<in> set (rev (map fst acc))" by simp
    from remdups_drop_repeated [OF this, of "rev (map fst items)"] True
    show ?thesis by (simp add: dict_set_names item)
  next
    case False
    then show ?thesis by (simp add: dict_set_names item)
  qed
  finally show ?case .
qed

lemma first_occurrence:
  "list_all (decodes specs) es \<Longrightarrow>
   map_of (map (field_of specs) es) field = Some v \<Longrightarrow>
   \<exists>k spec. spec_by_key specs k = Some spec \<and> name spec = field
     \<and> map_of (map (\<lambda>(k, b, v). (k, v)) es) k = Some v"
proof (induction es)
  case Nil
  then show ?case by simp
next
  case (Cons e es)
  obtain k1 b1 v1 where e: "e = (k1, b1, v1)" by (cases e)
  from Cons.prems(1) e obtain s where s: "spec_by_key specs k1 = Some s"
    by (auto simp: decodes_def)
  have f: "field_of specs e = (name s, v1)" using e s by (simp add: field_of_def)
  show ?case
  proof (cases "name s = field")
    case True
    with Cons.prems(2) f have "v1 = v" by simp
    with True s e show ?thesis by (intro exI [of _ k1] exI [of _ s]) simp
  next
    case False
    with Cons.prems f have "map_of (map (field_of specs) es) field = Some v"
      and "list_all (decodes specs) es" by simp_all
    from Cons.IH [OF this(2,1)] obtain k spec where
      k: "spec_by_key specs k = Some spec" "name spec = field"
        "map_of (map (\<lambda>(k, b, v). (k, v)) es) k = Some v"
      by blast
    with False s have "k \<noteq> k1" by auto
    with k e show ?thesis by (intro exI [of _ k] exI [of _ spec]) simp
  qed
qed

section \<open>Claims about the integer codecs\<close>

text \<open>
  C6. \<^verbatim>\<open>UnsignedInt.to_bytes(18178)\<close> yields the bytes \<open>0b10000010\<close>, \<open>0b10001110\<close>,
  \<open>0b00000001\<close> (\<open>0x82\<close>, \<open>0x8E\<close>, \<open>0x01\<close>), and \<^verbatim>\<open>UnsignedInt.read\<close> of these bytes
  returns 18178.
\<close>

theorem UnsignedInt_18178:
  "UnsignedInt_to_bytes 18178 = [0x82, 0x8E, 0x01]
   \<and> UnsignedInt_read [0x82, 0x8E, 0x01] = (18178, [])"
  by (simp add: UnsignedInt_to_bytes.simps [of 18178] UnsignedInt_to_bytes.simps [of 142]
      UnsignedInt_to_bytes.simps [of 1] drop_bit_eq_div UnsignedInt_read_def)

text \<open>
  C9. \<^verbatim>\<open>SignedInt.to_bytes\<close> of zero and of negative zero (the same integer) is the sign
  flag true followed by the \<^verbatim>\<open>UnsignedInt\<close> encoding of 0, the bytes 1 and 0. On every
  input \<^verbatim>\<open>SignedInt.read\<close> returns the integer 0 exactly when the magnitude it reads is 0,
  under either sign flag: a false flag with a zero magnitude gives 0, and Python's
  integers have no negative zero to return.
\<close>

theorem SignedInt_zero:
  "SignedInt_to_bytes 0 = Boolean_to_bytes True @ UnsignedInt_to_bytes 0
   \<and> SignedInt_to_bytes (- 0) = Boolean_to_bytes True @ UnsignedInt_to_bytes 0
   \<and> SignedInt_to_bytes 0 = [1, 0]
   \<and> (\<forall>positive rest.
         SignedInt_read (Boolean_to_bytes positive @ UnsignedInt_to_bytes 0 @ rest) = (0, rest))
   \<and> (\<forall>bytestream.
         (fst (SignedInt_read bytestream) = 0)
         = (fst (UnsignedInt_read (snd (Boolean_read bytestream))) = 0))"
proof -
  have enc: "SignedInt_to_bytes 0 = Boolean_to_bytes True @ UnsignedInt_to_bytes 0"
    by (simp add: SignedInt_to_bytes_def)
  have bytes: "SignedInt_to_bytes 0 = [1, 0]"
    by (simp add: SignedInt_to_bytes_def Boolean_to_bytes_def UnsignedInt_to_bytes_small)
  have dec: "SignedInt_read (Boolean_to_bytes positive @ UnsignedInt_to_bytes 0 @ rest) = (0, rest)"
    for positive rest
    by (simp add: SignedInt_read_def Boolean_roundtrip UnsignedInt_roundtrip)
  have any: "(fst (SignedInt_read bytestream) = 0)
             = (fst (UnsignedInt_read (snd (Boolean_read bytestream))) = 0)" for bytestream
    by (simp add: SignedInt_read_def split: prod.splits)
  from enc bytes dec any show ?thesis by simp
qed

text \<open>
  C3, as the specification states it, fails: \<^verbatim>\<open>UnsignedInt.read\<close> of the empty source
  returns 0, and of a source that ends after bytes with the continuation bit set it
  returns the number built from them; it raises nothing.
\<close>

theorem UnsignedInt_read_exhausted_counterexample:
  "read UnsignedInt [] = Inr (VInt 0, []) \<and> read UnsignedInt [0x82, 0x8E] = Inr (VInt 1794, [])"
  by (simp add: UnsignedInt_read_def)

text \<open>
  C3, amended. For every byte source that is exhausted before a byte with the
  continuation bit clear is reached, the empty source included, \<^verbatim>\<open>UnsignedInt.read\<close>
  returns the number built from the low seven bits of the bytes read, least significant
  group first (0 for the empty source), and leaves the source empty.
\<close>

theorem UnsignedInt_read_exhausted:
  "\<forall>b \<in> set bs. b AND 128 \<noteq> 0 \<Longrightarrow>
   read UnsignedInt bs
   = Inr (VInt (foldr (\<lambda>b acc. (b AND 127) OR push_bit 7 acc) bs 0), [])"
  by (simp add: UnsignedInt_read_def UnsignedInt_read_loop_unterminated)

theorem UnsignedInt_read_exhausted_witness:
  "read UnsignedInt [0x82, 0x8E] = Inr (VInt 1794, [])"
  using UnsignedInt_read_exhausted [of "[0x82, 0x8E]"] by simp

section \<open>Claims about the scalar codecs\<close>

text \<open>
  C2, as the specification states it, fails on text: \<open>0xD800\<close> is a code point that a
  Python string may hold, and \<^verbatim>\<open>String.to_bytes\<close> of the one-character string made of it
  raises \<^verbatim>\<open>UnicodeEncodeError\<close> before it yields a byte.
\<close>

theorem String_surrogate_counterexample:
  "is_code_point 0xD800 \<and> to_bytes String (VStr [0xD800]) = ([], Some UnicodeEncodeError)"
  by (simp add: is_code_point_def String_to_bytes_def encode_code_point_def is_surrogate_def
      raise_def)

text \<open>
  C2, amended. Decoding the bytes that encoding yields returns the value encoded: for
  every non-negative integer with \<^verbatim>\<open>UnsignedInt\<close>, for every integer with \<^verbatim>\<open>SignedInt\<close>,
  for both booleans with \<^verbatim>\<open>Boolean\<close>, and with \<^verbatim>\<open>String\<close> for every string that holds no
  surrogate code point (the empty string and text outside ASCII included).
\<close>

theorem scalar_roundtrip:
  "(0 \<le> n \<longrightarrow> UnsignedInt_read (UnsignedInt_to_bytes n) = (n, []))
   \<and> SignedInt_read (SignedInt_to_bytes i) = (i, [])
   \<and> Boolean_read (Boolean_to_bytes b) = (b, [])
   \<and> (list_all scalar_value s \<longrightarrow>
        (\<exists>bs. String_to_bytes s = (bs, None) \<and> String_read bs = Inr (s, [])))"
proof -
  have "list_all scalar_value s \<Longrightarrow>
        \<exists>bs. String_to_bytes s = (bs, None) \<and> String_read bs = Inr (s, [])"
    using String_roundtrip [of s] by (metis append_Nil2)
  then show ?thesis
    using UnsignedInt_roundtrip [of n "[]"] SignedInt_roundtrip [of i "[]"]
      Boolean_roundtrip [of b "[]"]
    by auto
qed

theorem scalar_roundtrip_witness:
  "UnsignedInt_read (UnsignedInt_to_bytes (2 ^ 100)) = (2 ^ 100, [])
   \<and> SignedInt_read (SignedInt_to_bytes (- (2 ^ 100))) = (- (2 ^ 100), [])
   \<and> Boolean_read (Boolean_to_bytes False) = (False, [])
   \<and> (\<exists>bs. String_to_bytes [0x48, 0xE9, 0x20AC, 0x1F600] = (bs, None)
          \<and> String_read bs = Inr ([0x48, 0xE9, 0x20AC, 0x1F600], []))"
  using scalar_roundtrip [of "2 ^ 100" "- (2 ^ 100)" False "[0x48, 0xE9, 0x20AC, 0x1F600]"]
  by (simp add: scalar_value_def is_code_point_def is_surrogate_def)

section \<open>Claims about composite and record codecs\<close>

text \<open>
  C8, as the specification states it, fails for some codecs and values. A record type
  with a field named \<^verbatim>\<open>_records\<close> encodes \<^verbatim>\<open>{"_records": 5}\<close> as the bytes 1, 1, 5, and
  \<^verbatim>\<open>Map.read\<close> of these bytes followed by a byte 7 leaves the 7 but returns an instance
  whose \<^verbatim>\<open>_records\<close> attribute is 5, which is not equal to the dictionary encoded. A list
  of strings whose second string holds a surrogate is not encoded at all: the generator
  raises \<^verbatim>\<open>UnicodeEncodeError\<close> after the bytes of the first string.
\<close>

theorem shared_cursor_counterexample:
  "to_bytes (Map [(1, ''_records'', UnsignedInt)] None) (VDict [(''_records'', VInt 5)])
     = ([1, 1, 5], None)
   \<and> read (Map [(1, ''_records'', UnsignedInt)] None) ([1, 1, 5] @ [7])
     = Inr (UserType VNone (VInt 5) [], [7])
   \<and> py_eq (UserType VNone (VInt 5) []) (VDict [(''_records'', VInt 5)]) = Inr False
   \<and> to_bytes (List String) (VList [VStr [0x41], VStr [0xD800]])
     = ([2, 1, 0x41], Some UnicodeEncodeError)"
  by (simp add: eval_defs String_to_bytes_def encode_code_point_def is_surrogate_def)

text \<open>
  C8, amended. For every well-formed type object (in every record type in it the keys
  are distinct and non-negative, the names are distinct and none is \<^verbatim>\<open>self\<close>,
  \<^verbatim>\<open>_records\<close>, \<^verbatim>\<open>__class__\<close>, \<^verbatim>\<open>__dict__\<close> or \<^verbatim>\<open>__weakref__\<close>), every value of that type
  (\<open>has_type\<close>: in particular text without surrogates) and every trailing byte sequence
  \<open>rest\<close>: the encoder ends without an exception, and decoding from one forward
  iterator over the bytes encoded followed by \<open>rest\<close> returns a value equal to the one
  encoded and leaves exactly \<open>rest\<close> in the iterator. The decoders of list items and
  record fields read from that same iterator.
\<close>

theorem shared_cursor_roundtrip:
  assumes "wf_ty T" and "has_type T v"
  shows "\<exists>bs v'. to_bytes T v = (bs, None)
           \<and> (\<forall>rest. read T (bs @ rest) = Inr (v', rest))
           \<and> py_eq v' v = Inr True"
  using roundtrip [OF assms] by (simp add: roundtrips_def)

theorem shared_cursor_roundtrip_witness:
  "\<exists>bs v'. to_bytes (List (Map [(1, ''name'', String), (2, ''phone'', Optional UnsignedInt)]
                             (Some ''Person'')))
               (VList [VDict [(''phone'', VNone), (''name'', VStr [0x42, 0xE9])],
                       VDict [(''name'', VStr []), (''phone'', VInt 300)]]) = (bs, None)
     \<and> (\<forall>rest. read (List (Map [(1, ''name'', String), (2, ''phone'', Optional UnsignedInt)]
                                 (Some ''Person''))) (bs @ rest) = Inr (v', rest))
     \<and> py_eq v' (VList [VDict [(''phone'', VNone), (''name'', VStr [0x42, 0xE9])],
                        VDict [(''name'', VStr []), (''phone'', VInt 300)]]) = Inr True"
  by (rule shared_cursor_roundtrip)
    (auto simp add: specs_by_name_def name_def value_type_def scalar_value_def
      is_code_point_def is_surrogate_def reserved_names_def)

text \<open>
  C1, as the specification states it, fails. A record type whose nested record type has a
  field named \<^verbatim>\<open>self\<close> encodes \<^verbatim>\<open>{"inner": {"self": 5}}\<close>, but \<^verbatim>\<open>Map.read_as_dict\<close> of
  the bytes raises \<^verbatim>\<open>TypeError\<close>: \<^verbatim>\<open>Map.read\<close> of the nested record passes \<^verbatim>\<open>self\<close> as a
  keyword argument to \<^verbatim>\<open>Map.__call__\<close>. A nested record with a string field holding a
  surrogate is not encoded: the generator raises \<^verbatim>\<open>UnicodeEncodeError\<close>.
\<close>

theorem record_roundtrip_counterexample:
  "to_bytes (Map [(1, ''inner'', Map [(1, ''self'', UnsignedInt)] None)] None)
     (VDict [(''inner'', VDict [(''self'', VInt 5)])]) = ([1, 1, 1, 1, 5], None)
   \<and> Map_read_as_dict [(1, ''inner'', Map [(1, ''self'', UnsignedInt)] None)] [1, 1, 1, 1, 5]
     = Inl TypeError
   \<and> to_bytes (Map [(1, ''inner'', Map [(1, ''name'', String)] None)] None)
     (VDict [(''inner'', VDict [(''name'', VStr [0xDFFF])])])
     = ([1, 1, 1, 1], Some UnicodeEncodeError)"
  by (simp add: eval_defs String_to_bytes_def encode_code_point_def is_surrogate_def)

text \<open>
  C1, amended. For every record type whose keys are distinct and non-negative and whose
  names are distinct, with well-formed field types (no record type nested in it has a
  field named \<^verbatim>\<open>self\<close>, \<^verbatim>\<open>_records\<close>, \<^verbatim>\<open>__class__\<close>, \<^verbatim>\<open>__dict__\<close> or \<^verbatim>\<open>__weakref__\<close>), and
  every dictionary \<open>d\<close> that has exactly the declared names with values of the declared
  types: for every iteration order \<open>d2\<close> of the same items, \<^verbatim>\<open>Map.to_bytes\<close> ends without
  an exception and \<^verbatim>\<open>Map.read_as_dict\<close> of the bytes returns a dictionary equal (\<^verbatim>\<open>==\<close>) to
  \<open>d\<close>. The nested records of the result are instances, equal to the dictionaries they
  were encoded from.
\<close>

theorem record_roundtrip:
  assumes "wf_specs entry_specs" and "has_type (Map entry_specs nm) (VDict d)"
    and "set d2 = set d" and "distinct (map fst d2)"
  shows "\<exists>bs d'. to_bytes (Map entry_specs nm) (VDict d2) = (bs, None)
           \<and> (\<forall>rest. Map_read_as_dict entry_specs (bs @ rest) = Inr (d', rest))
           \<and> py_eq (VDict d') (VDict d) = Inr True"
proof -
  from assms(2) have d: "distinct (map fst d)" "set (map fst d) = set (map name entry_specs)"
    "list_all (typed_item entry_specs) d"
    unfolding has_type_Map by blast+
  have ty2: "has_type (Map entry_specs nm) (VDict d2)"
    unfolding has_type_Map using d assms(3,4) by (simp add: list_all_iff)
  have "distinct d2" "distinct d" using assms(4) d(1) by (simp_all add: distinct_map)
  then have len: "length d = length d2"
    using assms(3) by (metis distinct_card)
  have IH: "roundtrips (value_type spec) w"
    if "spec \<in> set entry_specs" "has_type (value_type spec) w" for spec w
    using assms(1) that by (auto simp: wf_specs_def list_all_iff intro: roundtrip)
  from Map_dict_roundtrip [OF assms(1) IH ty2] obtain bs d' where
    m: "to_bytes (Map entry_specs nm) (VDict d2) = (bs, None)"
       "\<And>rest. Map_read_as_dict entry_specs (bs @ rest) = Inr (d', rest)"
       "list_all2 (\<lambda>i' i. fst i' = fst i \<and> py_eq (snd i') (snd i) = Inr True) d' d2"
    by blast
  have "py_eq (VDict d') (VDict d) = Inr True"
    using m(3) assms(3) d(1) len by (rule dict_eq_same_items [OF _ sym])
  with m(1,2) show ?thesis by blast
qed

theorem record_roundtrip_witness:
  "\<exists>bs d'.
     to_bytes (Map [(1, ''mother'', Map [(1, ''name'', String), (2, ''age'', UnsignedInt)]
                                      (Some ''Person'')),
                    (2, ''father'', Map [(1, ''name'', String), (2, ''age'', UnsignedInt)]
                                      (Some ''Person''))] (Some ''Family''))
       (VDict [(''father'', VDict [(''age'', VInt 65), (''name'', VStr [77, 97, 114, 107])]),
               (''mother'', VDict [(''name'', VStr [72, 101, 108, 101, 110]), (''age'', VInt 62)])])
       = (bs, None)
     \<and> (\<forall>rest. Map_read_as_dict
                  [(1, ''mother'', Map [(1, ''name'', String), (2, ''age'', UnsignedInt)]
                                     (Some ''Person'')),
                   (2, ''father'', Map [(1, ''name'', String), (2, ''age'', UnsignedInt)]
                                     (Some ''Person''))] (bs @ rest) = Inr (d', rest))
     \<and> py_eq (VDict d')
         (VDict [(''mother'', VDict [(''name'', VStr [72, 101, 108, 101, 110]), (''age'', VInt 62)]),
                 (''father'', VDict [(''age'', VInt 65), (''name'', VStr [77, 97, 114, 107])])])
       = Inr True"
  by (rule record_roundtrip)
    (auto simp add: wf_specs_def specs_by_name_def key_def name_def value_type_def
      scalar_value_def is_code_point_def is_surrogate_def reserved_names_def)

text \<open>
  C4, as the specification states it, fails. \<^verbatim>\<open>Map.to_bytes\<close> is a generator: for the
  record type with the one field \<^verbatim>\<open>colour\<close> and the empty dictionary it yields the byte 0
  (the number of items) before it raises \<^verbatim>\<open>ValueError\<close>; and for a dictionary that misses
  \<^verbatim>\<open>colour\<close> and has an undeclared name \<^verbatim>\<open>shade\<close> it yields the byte 1 and raises the
  \<^verbatim>\<open>KeyError\<close> of the dictionary lookup, which names \<^verbatim>\<open>shade\<close> and not the set of
  unfilled fields.
\<close>

theorem incomplete_value_counterexample:
  "to_bytes (Map [(2, ''colour'', String)] None) (VDict [])
     = ([0], Some (ValueError_unfilled {''colour''}))
   \<and> to_bytes (Map [(2, ''colour'', String)] None) (VDict [(''shade'', VStr [])])
     = ([1], Some (KeyError_name ''shade''))"
  by (simp add: eval_defs)

text \<open>
  C4, amended. For every record type and every dictionary that misses at least one
  declared field name, \<^verbatim>\<open>Map.to_bytes\<close> does not end normally: it yields the number of
  items (at least one byte), then the bytes of the items in iteration order, and raises.
  When every item is encoded, it raises, after the bytes of all items, the \<^verbatim>\<open>ValueError\<close>
  that carries the set of the declared names missing from the dictionary. When the first
  item that is not encoded has a name without a specification, it raises the \<^verbatim>\<open>KeyError\<close>
  for that name after the bytes of the items before it; when the encoder of that item's
  value raises, it raises that exception after the key of the item and the bytes the
  encoder yielded. A consumer that collects the whole output, as \<^verbatim>\<open>bytes(...)\<close> does, gets
  an exception and no bytes.
\<close>

theorem incomplete_value_raises:
  assumes "\<not> set (map name entry_specs) \<subseteq> set (map fst d)"
  shows "(\<exists>bs e. to_bytes (Map entry_specs nm) (VDict d)
                  = (UnsignedInt_to_bytes (int (length d)) @ bs, Some e))
         \<and> UnsignedInt_to_bytes (int (length d)) \<noteq> []
         \<and> (list_all (item_encodes entry_specs) d \<longrightarrow>
              to_bytes (Map entry_specs nm) (VDict d)
              = (UnsignedInt_to_bytes (int (length d)) @ concat (map (item_bytes entry_specs) d),
                 Some (ValueError_unfilled (set (map name entry_specs) - set (map fst d)))))
         \<and> (d = pre @ (field, v) # post \<and> list_all (item_encodes entry_specs) pre
              \<and> field \<notin> set (map name entry_specs) \<longrightarrow>
              to_bytes (Map entry_specs nm) (VDict d)
              = (UnsignedInt_to_bytes (int (length d)) @ concat (map (item_bytes entry_specs) pre),
                 Some (KeyError_name field)))
         \<and> (d = pre @ (field, v) # post \<and> list_all (item_encodes entry_specs) pre
              \<and> specs_by_name entry_specs field = Some spec
              \<and> to_bytes (value_type spec) v = (bs, Some e) \<longrightarrow>
              to_bytes (Map entry_specs nm) (VDict d)
              = (UnsignedInt_to_bytes (int (length d)) @ concat (map (item_bytes entry_specs) pre)
                   @ UnsignedInt_to_bytes (key spec) @ bs,
                 Some e))
         \<and> (\<exists>e. py_bytes (to_bytes (Map entry_specs nm) (VDict d)) = Inl e)"
proof -
  let ?loop = "Map_to_bytes_loop entry_specs d"
  let ?count = "UnsignedInt_to_bytes (int (length d))"
  let ?missing = "set (map name entry_specs) - set (map fst d)"
  let ?check = "let seen_keys = set (map fst d);
                   names = set (map name entry_specs);
                   unfilled = (seen_keys - names) \<union> (names - seen_keys)
               in if unfilled \<noteq> {} then raise (ValueError_unfilled unfilled) else yield_all []"
  have unfold: "to_bytes (Map entry_specs nm) (VDict d)
                = yield_from (yield_all ?count) (yield_from ?loop ?check)"
    by (simp only: to_bytes.simps)
  have enc: "to_bytes (Map entry_specs nm) (VDict d)
         = (?count @ fst ?loop,
            Some (case snd ?loop of Some e \<Rightarrow> e | None \<Rightarrow> ValueError_unfilled ?missing))"
  proof (cases "snd ?loop")
    case None
    from Map_to_bytes_loop_names [OF None]
    have "(set (map fst d) - set (map name entry_specs)) \<union> ?missing = ?missing" by blast
    moreover have "?missing \<noteq> {}" using assms by blast
    ultimately have "?check = ([], Some (ValueError_unfilled ?missing))"
      by (simp only: Let_def raise_def if_True not_False_eq_True simp_thms)
    then have "yield_from ?loop ?check = (fst ?loop, Some (ValueError_unfilled ?missing))"
      using None by (simp add: yield_from_def)
    then show ?thesis unfolding unfold using None by simp
  next
    case (Some e)
    then have "yield_from ?loop ?check = (fst ?loop, Some e)"
      by (simp add: yield_from_def prod_eq_iff)
    then show ?thesis unfolding unfold using Some by simp
  qed
  have ne: "?count \<noteq> []"
    by (subst UnsignedInt_to_bytes.simps) (simp add: Let_def)
  have all_encoded: "to_bytes (Map entry_specs nm) (VDict d)
      = (?count @ concat (map (item_bytes entry_specs) d), Some (ValueError_unfilled ?missing))"
    if "list_all (item_encodes entry_specs) d"
  proof -
    from Map_to_bytes_loop_prefix [OF that, of "[]"]
    have "?loop = (concat (map (item_bytes entry_specs) d), None)"
      by (simp add: yield_all_def)
    then show ?thesis unfolding enc by simp
  qed
  have undeclared: "to_bytes (Map entry_specs nm) (VDict d)
      = (?count @ concat (map (item_bytes entry_specs) pre), Some (KeyError_name field))"
    if "d = pre @ (field, v) # post" "list_all (item_encodes entry_specs) pre"
      "field \<notin> set (map name entry_specs)"
  proof -
    have "Map_to_bytes_loop entry_specs ((field, v) # post) = ([], Some (KeyError_name field))"
      using specs_by_name_None [OF that(3)] by (simp add: raise_def)
    with Map_to_bytes_loop_prefix [OF that(2), of "(field, v) # post"] that(1)
    have "?loop = (concat (map (item_bytes entry_specs) pre), Some (KeyError_name field))"
      by simp
    then show ?thesis unfolding enc by simp
  qed
  have failed: "to_bytes (Map entry_specs nm) (VDict d)
      = (?count @ concat (map (item_bytes entry_specs) pre) @ UnsignedInt_to_bytes (key spec) @ bs,
         Some e)"
    if "d = pre @ (field, v) # post" "list_all (item_encodes entry_specs) pre"
      "specs_by_name entry_specs field = Some spec" "to_bytes (value_type spec) v = (bs, Some e)"
  proof -
    have "Map_to_bytes_loop entry_specs ((field, v) # post)
          = (UnsignedInt_to_bytes (key spec) @ bs, Some e)"
      using that(3,4) by (simp add: yield_from_def yield_all_def)
    with Map_to_bytes_loop_prefix [OF that(2), of "(field, v) # post"] that(1)
    have "?loop = (concat (map (item_bytes entry_specs) pre) @ UnsignedInt_to_bytes (key spec) @ bs,
                   Some e)"
      by simp
    then show ?thesis unfolding enc by simp
  qed
  have "\<exists>e. py_bytes (to_bytes (Map entry_specs nm) (VDict d)) = Inl e"
    unfolding enc by (simp add: py_bytes_def)
  moreover have "\<exists>bs e. to_bytes (Map entry_specs nm) (VDict d) = (?count @ bs, Some e)"
    unfolding enc by blast
  ultimately show ?thesis using ne all_encoded undeclared failed by blast
qed


theorem incomplete_value_raises_witness:
  "to_bytes (Map [(1, ''flag'', Boolean), (2, ''age'', UnsignedInt)] None)
     (VDict [(''flag'', VStr [0x35])])
   = ([1, 1, 5], Some (ValueError_unfilled {''age''}))
   \<and> to_bytes (Map [(1, ''name'', String), (2, ''age'', UnsignedInt)] None)
       (VDict [(''name'', VStr [65, 108]), (''shade'', VInt 3)])
     = ([2, 1, 2, 65, 108], Some (KeyError_name ''shade''))
   \<and> to_bytes (Map [(1, ''name'', String), (2, ''age'', UnsignedInt), (3, ''email'', String)] None)
       (VDict [(''name'', VStr [65, 108]), (''age'', VNone)])
     = ([2, 1, 2, 65, 108, 2], Some TypeError)
   \<and> (\<exists>e. py_bytes (to_bytes (Map [(1, ''flag'', Boolean), (2, ''age'', UnsignedInt)] None)
                      (VDict [(''flag'', VStr [0x35])])) = Inl e)"
proof -
  let ?flag = "[(1, ''flag'', Boolean), (2, ''age'', UnsignedInt)]"
  let ?person = "[(1, ''name'', String), (2, ''age'', UnsignedInt)]"
  let ?contact = "[(1, ''name'', String), (2, ''age'', UnsignedInt), (3, ''email'', String)]"
  have five: "int_of_text [0x35] = Inr 5"
    by (simp add: int_of_text_def int_isspace_def int_digits_value_def decimal_digit_def
        digit_zeros_def)
  have "\<not> set (map name ?flag) \<subseteq> set (map fst [(''flag'', VStr [0x35])])"
    by (simp add: name_def)
  from incomplete_value_raises [OF this, where nm = None]
  have "to_bytes (Map ?flag None) (VDict [(''flag'', VStr [0x35])])
        = ([1, 1, 5], Some (ValueError_unfilled {''age''}))"
    and "\<exists>e. py_bytes (to_bytes (Map ?flag None) (VDict [(''flag'', VStr [0x35])])) = Inl e"
    by (auto simp add: item_encodes_def item_bytes_def eval_defs five)
  moreover
  have "\<not> set (map name ?person)
          \<subseteq> set (map fst [(''name'', VStr [65, 108]), (''shade'', VInt 3)])"
    by (simp add: name_def)
  from incomplete_value_raises [OF this, where pre = "[(''name'', VStr [65, 108])]"
      and field = "''shade''" and v = "VInt 3" and post = "[]" and nm = None]
  have "to_bytes (Map ?person None) (VDict [(''name'', VStr [65, 108]), (''shade'', VInt 3)])
        = ([2, 1, 2, 65, 108], Some (KeyError_name ''shade''))"
    by (simp add: item_encodes_def item_bytes_def eval_defs String_to_bytes_def
        encode_code_point_def)
  moreover
  have "\<not> set (map name ?contact)
          \<subseteq> set (map fst [(''name'', VStr [65, 108]), (''age'', VNone)])"
    by (simp add: name_def)
  from incomplete_value_raises [OF this, where pre = "[(''name'', VStr [65, 108])]"
      and field = "''age''" and v = VNone and post = "[]" and nm = None
      and spec = "(2, ''age'', UnsignedInt)" and bs = "[]" and e = TypeError]
  have "to_bytes (Map ?contact None) (VDict [(''name'', VStr [65, 108]), (''age'', VNone)])
        = ([2, 1, 2, 65, 108, 2], Some TypeError)"
    by (simp add: item_encodes_def item_bytes_def eval_defs String_to_bytes_def
        encode_code_point_def)
  ultimately show ?thesis by blast
qed

text \<open>
  C5. For every record type and every record payload that holds a key with no entry
  specification: when the decoder, after the number of entries and \<open>j\<close> entries read
  without error, with more entries announced, reads such a key \<open>k\<close>, \<^verbatim>\<open>Map.read_key\<close>
  raises the \<^verbatim>\<open>KeyError\<close> for \<open>k\<close> before it reads a byte of the value, and
  \<^verbatim>\<open>Map.read_as_dict\<close> and \<^verbatim>\<open>Map.read\<close> end with that exception: the entries read before
  are not returned.
\<close>

theorem unknown_key_rejected:
  assumes "k \<notin> set (map key entry_specs)"
    and "UnsignedInt_read bytestream = (number_entries, bs1)"
    and "Map_read_loop entry_specs j [] bs1 = Inr (map_data, bs2)"
    and "j < nat number_entries"
    and "UnsignedInt_read bs2 = (k, bs3)"
  shows "Map_read_key entry_specs k bs3 = Inl (KeyError_no_type_information k)
         \<and> Map_read_as_dict entry_specs bytestream = Inl (KeyError_no_type_information k)
         \<and> read (Map entry_specs nm) bytestream = Inl (KeyError_no_type_information k)"
proof -
  have key: "Map_read_key entry_specs k bs3 = Inl (KeyError_no_type_information k)"
    using spec_by_key_None [OF assms(1)] by simp
  obtain m where m: "nat number_entries = j + Suc m"
    using less_imp_Suc_add [OF assms(4)] by auto
  have "Map_read_loop entry_specs (Suc m) map_data bs2 = Inl (KeyError_no_type_information k)"
    using assms(5) key by (simp only: Map_read_loop.simps prod.case sum.case)
  then have "Map_read_loop entry_specs (j + Suc m) [] bs1
             = Inl (KeyError_no_type_information k)"
    using assms(3) by (simp only: Map_read_loop_add [of entry_specs j "Suc m"] sum.case prod.case)
  then have dict: "Map_read_as_dict entry_specs bytestream = Inl (KeyError_no_type_information k)"
    using assms(2) m by (simp only: Map_read_as_dict.simps prod.case)
  then have "read (Map entry_specs nm) bytestream = Inl (KeyError_no_type_information k)"
    by (simp only: read.simps sum.case)
  with key dict show ?thesis by blast
qed

theorem unknown_key_rejected_witness:
  "Map_read_key [(1, ''name'', String), (2, ''age'', UnsignedInt)] 10 [7]
     = Inl (KeyError_no_type_information 10)
   \<and> Map_read_as_dict [(1, ''name'', String), (2, ''age'', UnsignedInt)]
        [3, 2, 20, 10, 7] = Inl (KeyError_no_type_information 10)
   \<and> read (Map [(1, ''name'', String), (2, ''age'', UnsignedInt)] None)
        [3, 2, 20, 10, 7] = Inl (KeyError_no_type_information 10)"
proof -
  have "(10::int) \<notin> set (map key [(1, ''name'', String), (2, ''age'', UnsignedInt)])"
    by (simp add: key_def)
  moreover have "UnsignedInt_read [3, 2, 20, 10, 7] = (3, [2, 20, 10, 7])"
    by (simp add: UnsignedInt_read_def)
  moreover have "Map_read_loop [(1, ''name'', String), (2, ''age'', UnsignedInt)] 1 []
                   [2, 20, 10, 7] = Inr ([(''age'', VInt 20)], [10, 7])"
    by (simp add: eval_defs)
  moreover have "1 < nat (3::int)" by simp
  moreover have "UnsignedInt_read [10, 7] = (10, [7])"
    by (simp add: UnsignedInt_read_def)
  ultimately show ?thesis by (rule unknown_key_rejected)
qed

text \<open>
  C10, as the specification states it, fails for a record type that has two fields of one
  name, which the code accepts. With the fields \<open>(1, a)\<close> and \<open>(2, a)\<close>, both
  \<^verbatim>\<open>UnsignedInt\<close>, the payload of the three entries \<open>(1, 5)\<close>, \<open>(1, 6)\<close>, \<open>(2, 7)\<close> decodes
  to \<^verbatim>\<open>{"a": 7}\<close>: the value 6 of the last occurrence of the key 1 is not in the result.
\<close>

theorem duplicate_name_counterexample:
  "Map_read_as_dict [(1, ''a'', UnsignedInt), (2, ''a'', UnsignedInt)] [3, 1, 5, 1, 6, 2, 7]
     = Inr ([(''a'', VInt 7)], [])"
  by (simp add: eval_defs eval_nat_numeral)

text \<open>
  C10, amended. For every record type with distinct field names and every record payload
  whose entries decode, repeated keys included: \<^verbatim>\<open>Map.read_as_dict\<close> returns a dictionary
  without error and leaves the bytes after the payload. The dictionary holds each name
  once, and its items are exactly these: for every key that occurs in the payload, the
  name of the key's field with the value of the key's last occurrence (a later occurrence
  overwrites an earlier one). The names stand in the order in which the payload first
  mentions them (\<open>remdups\<close> keeps the last of equal elements, so it is applied to the
  reversed list).
\<close>

theorem duplicate_key_last_wins:
  assumes "distinct (map name entry_specs)"
    and "list_all (decodes entry_specs) entries"
  shows "\<exists>map_data.
           Map_read_as_dict entry_specs
             (UnsignedInt_to_bytes (int (length entries))
              @ concat (map (\<lambda>(k, b, v). UnsignedInt_to_bytes k @ b) entries) @ rest)
             = Inr (map_data, rest)
           \<and> distinct (map fst map_data)
           \<and> (\<forall>field v. (field, v) \<in> set map_data \<longleftrightarrow>
                (\<exists>k spec. spec_by_key entry_specs k = Some spec \<and> name spec = field
                   \<and> map_of (rev (map (\<lambda>(k, b, v). (k, v)) entries)) k = Some v))
           \<and> map fst map_data
               = rev (remdups (rev (map (\<lambda>entry. fst (field_of entry_specs entry)) entries)))"
proof -
  let ?d = "foldl (\<lambda>d (f, v). dict_set d f v) [] (map (field_of entry_specs) entries)"
  have decoded: "Map_read_as_dict entry_specs
          (UnsignedInt_to_bytes (int (length entries))
           @ concat (map (\<lambda>(k, b, v). UnsignedInt_to_bytes k @ b) entries) @ rest)
        = Inr (?d, rest)"
    using UnsignedInt_roundtrip [of "int (length entries)"
        "concat (map (\<lambda>(k, b, v). UnsignedInt_to_bytes k @ b) entries) @ rest"]
      entries_decode [OF assms(2), of "[]" rest]
    by simp
  have dist: "distinct (map fst ?d)"
    by (rule foldl_dict_set_distinct) simp
  have order: "map fst ?d
               = rev (remdups (rev (map (\<lambda>entry. fst (field_of entry_specs entry)) entries)))"
    using foldl_dict_set_names [of "[]" "map (field_of entry_specs) entries"]
    by (simp add: comp_def)
  have rev_decodes: "list_all (decodes entry_specs) (rev entries)"
    using assms(2) by simp
  have lookup: "map_of ?d = map_of (map (field_of entry_specs) (rev entries))"
    by (simp add: map_of_foldl_dict_set rev_map)
  have "(field, v) \<in> set ?d \<longleftrightarrow>
          (\<exists>k spec. spec_by_key entry_specs k = Some spec \<and> name spec = field
             \<and> map_of (rev (map (\<lambda>(k, b, v). (k, v)) entries)) k = Some v)" for field v
  proof
    assume "(field, v) \<in> set ?d"
    with dist have "map_of ?d field = Some v" by simp
    then have "map_of (map (field_of entry_specs) (rev entries)) field = Some v"
      by (simp only: lookup)
    from first_occurrence [OF rev_decodes this] show
      "\<exists>k spec. spec_by_key entry_specs k = Some spec \<and> name spec = field
         \<and> map_of (rev (map (\<lambda>(k, b, v). (k, v)) entries)) k = Some v"
      by (simp add: rev_map)
  next
    assume "\<exists>k spec. spec_by_key entry_specs k = Some spec \<and> name spec = field
         \<and> map_of (rev (map (\<lambda>(k, b, v). (k, v)) entries)) k = Some v"
    then obtain k spec where k: "spec_by_key entry_specs k = Some spec" "name spec = field"
      "map_of (map (\<lambda>(k, b, v). (k, v)) (rev entries)) k = Some v"
      by (auto simp: rev_map)
    from last_occurrence [OF assms(1) k(1) rev_decodes k(3)] k(2)
    have "map_of ?d field = Some v" by (simp only: lookup)
    then show "(field, v) \<in> set ?d" by (rule map_of_SomeD)
  qed
  with decoded dist order show ?thesis by blast
qed

theorem duplicate_key_last_wins_witness:
  "\<exists>map_data.
     Map_read_as_dict [(1, ''name'', String), (2, ''age'', UnsignedInt)]
       (UnsignedInt_to_bytes (int (length [(2::int, [20::int], VInt 20), (1, [1, 65], VStr [65]),
                                          (2, [21], VInt 21)]))
        @ concat (map (\<lambda>(k, b, v). UnsignedInt_to_bytes k @ b)
                    [(2, [20], VInt 20), (1, [1, 65], VStr [65]), (2, [21], VInt 21)]) @ [])
       = Inr (map_data, [])
     \<and> distinct (map fst map_data)
     \<and> (\<forall>field v. (field, v) \<in> set map_data \<longleftrightarrow>
          (\<exists>k spec. spec_by_key [(1, ''name'', String), (2, ''age'', UnsignedInt)] k = Some spec
             \<and> name spec = field
             \<and> map_of (rev (map (\<lambda>(k, b, v). (k, v))
                  [(2::int, [20::int], VInt 20), (1, [1, 65], VStr [65]), (2, [21], VInt 21)])) k
               = Some v))
     \<and> map fst map_data
         = rev (remdups (rev (map (\<lambda>entry.
               fst (field_of [(1, ''name'', String), (2, ''age'', UnsignedInt)] entry))
             [(2::int, [20::int], VInt 20), (1, [1, 65], VStr [65]), (2, [21], VInt 21)])))"
proof (rule duplicate_key_last_wins)
  show "distinct (map name [(1, ''name'', String), (2, ''age'', UnsignedInt)])"
    by (simp add: name_def)
  have "read String ([1, 65] @ rest) = Inr (VStr [65], rest)" for rest
    by (simp add: String_read_def UnsignedInt_read_def read_n_bytes_zero decode_utf8.simps)
  moreover have "read UnsignedInt ([20] @ rest) = Inr (VInt 20, rest)"
    "read UnsignedInt ([21] @ rest) = Inr (VInt 21, rest)" for rest
    by (simp_all add: UnsignedInt_read_def)
  ultimately show "list_all (decodes [(1, ''name'', String), (2, ''age'', UnsignedInt)])
          [(2, [20], VInt 20), (1, [1, 65], VStr [65]), (2, [21], VInt 21)]"
    by (simp add: decodes_def spec_by_key_def key_def value_type_def del: read.simps)
qed

section \<open>Claims about schema resolution\<close>

text \<open>
  C7. \<^verbatim>\<open>Map.from_lines\<close> of the one line \<^verbatim>\<open>2. maybesomephones: optional(list string)\<close>, in
  any directory and under any name, is the record type with the one entry specification
  of key 2, name \<^verbatim>\<open>maybesomephones\<close> and type \<^verbatim>\<open>Optional(List(String))\<close>:
  \<^verbatim>\<open>map_info_from_lines\<close> gives the entry \<open>(2, maybesomephones, (optional, list, string))\<close>
  and \<^verbatim>\<open>compute_type\<close> wraps the type of \<^verbatim>\<open>list string\<close> in \<^verbatim>\<open>Optional\<close>.
\<close>

theorem resolve_optional_list_string:
  "(case map_info_from_lines [''2. maybesomephones: optional(list string)''] directory of
      Inl e \<Rightarrow> None
    | Inr (user_types, entries) \<Rightarrow> Some entries)
     = Some [(2, ''maybesomephones'', [''optional'', ''list'', ''string''])]
   \<and> compute_type from_file [''optional'', ''list'', ''string''] Map.empty
     = Inr (Optional (List String))
   \<and> Map_from_lines from_file [''2. maybesomephones: optional(list string)''] directory type_name
     = Inr (Map [(2, ''maybesomephones'', Optional (List String))] type_name)"
  by code_simp

end
